theory Spec2Isabelle
  imports Complex_Main
begin

section \<open>The random engine (collaborator of \<^verbatim>\<open>nucleon.h\<close>)\<close>

text \<open>
  \<^verbatim>\<open>random.h\<close> is not among the sources. The two entry points the code uses are
  \<^verbatim>\<open>random::engine()\<close> (an unsigned integer) and \<^verbatim>\<open>random::canonical<double>()\<close>
  (a real). Both advance the one ordered global stream, so the engine is a position in
  that stream together with what the stream yields at each position.
\<close>

record rng =
  rng_pos :: nat
  rng_raw :: "nat \<Rightarrow> nat"
  rng_unit :: "nat \<Rightarrow> real"

text \<open>Modelled from the spec: \<^verbatim>\<open>random::engine()\<close>, one unsigned integer of the stream
  (``integer uniforms for anchor selection'').\<close>

definition engine :: "rng \<Rightarrow> nat \<times> rng" where
  "engine g = (rng_raw g (rng_pos g), g\<lparr>rng_pos := Suc (rng_pos g)\<rparr>)"

text \<open>Modelled from the spec: \<^verbatim>\<open>random::canonical<double>()\<close>, one real of the stream
  (``uniform reals in [0,1)'').\<close>

definition canonical :: "rng \<Rightarrow> real \<times> rng" where
  "canonical g = (rng_unit g (rng_pos g), g\<lparr>rng_pos := Suc (rng_pos g)\<rparr>)"

text \<open>The contract of \<^verbatim>\<open>canonical\<close>: every real of the stream lies in \<open>[0,1)\<close>.\<close>

definition unit_stream :: "rng \<Rightarrow> bool" where
  "unit_stream g \<longleftrightarrow> (\<forall>n. 0 \<le> rng_unit g n \<and> rng_unit g n < 1)"

section \<open>Nucleon\<close>

text \<open>The private members \<^verbatim>\<open>x_\<close>, \<^verbatim>\<open>y_\<close>, \<^verbatim>\<open>fi_\<close>, \<^verbatim>\<open>fj_\<close>, \<^verbatim>\<open>participant_\<close>;
  doubles are read as reals.\<close>

record Nucleon =
  nx :: real
  ny :: real
  fi :: int
  fj :: int
  participant :: bool

text \<open>\<^verbatim>\<open>Nucleon::set_position\<close>. The two anchors are drawn from the engine in this order;
  \<^verbatim>\<open>engine() % 1950 + 25\<close> is unsigned arithmetic whose result fits an \<^verbatim>\<open>int\<close>.\<close>

definition set_position :: "real \<Rightarrow> real \<Rightarrow> Nucleon \<times> rng \<Rightarrow> Nucleon \<times> rng" where
  "set_position x y = (\<lambda>(n, g).
     let (e1, g1) = engine g;
         (e2, g2) = engine g1
     in (n\<lparr>nx := x, ny := y, participant := False,
            fi := int (e1 mod 1950 + 25), fj := int (e2 mod 1950 + 25)\<rparr>, g2))"

definition set_participant :: "Nucleon \<Rightarrow> Nucleon" where
  "set_participant n = n\<lparr>participant := True\<rparr>"

text \<open>\<^verbatim>\<open>participate\<close> takes its two nucleons by reference and they may be the same object,
  so nucleons live in a store and are named by their address.\<close>

type_synonym addr = nat
type_synonym store = "addr \<Rightarrow> Nucleon"

section \<open>NucleonProfile\<close>

text \<open>The members of \<^verbatim>\<open>NucleonProfile\<close> that \<^verbatim>\<open>thickness\<close> and \<^verbatim>\<open>participate\<close> read. The
  field generator is kept as a type parameter here: \<^verbatim>\<open>participate\<close> only passes it on.
  \<^verbatim>\<open>fast_exp\<close> is the \<^verbatim>\<open>FastExp<double>\<close> collaborator (\<^verbatim>\<open>fast_exp.h\<close> is not among the
  sources), taken as the function it computes.\<close>

record 'f NucleonProfile =
  field_generator :: 'f
  width_sqr :: real
  trunc_radius_sqr :: real
  max_impact_sqr :: real
  neg_one_div_two_width_sqr :: real
  cross_sec_param :: real
  fast_exp :: "real \<Rightarrow> real"
  prefactor :: real

text \<open>\<^verbatim>\<open>NucleonProfile::thickness\<close>.\<close>

definition thickness :: "'f NucleonProfile \<Rightarrow> real \<Rightarrow> real" where
  "thickness P distance_sqr =
     (if distance_sqr > trunc_radius_sqr P then 0
      else prefactor P * fast_exp P (neg_one_div_two_width_sqr P * distance_sqr))"

text \<open>Modelled from the spec: the constructor \<^verbatim>\<open>NucleonProfile::NucleonProfile\<close> is in
  \<^verbatim>\<open>nucleon.cxx\<close>, which is not among the sources; the header documents the constant member
  \<^verbatim>\<open>neg_one_div_two_width_sqr_\<close> as the cached value \<open>-1/(2 w\<^sup>2)\<close>.\<close>

definition cached_width :: "'f NucleonProfile \<Rightarrow> bool" where
  "cached_width P \<longleftrightarrow> neg_one_div_two_width_sqr P = - 1 / (2 * width_sqr P)"

text \<open>\<^verbatim>\<open>NucleonProfile::participate\<close>. \<^verbatim>\<open>calculate_fluct_norm\<close> is declared in \<^verbatim>\<open>rft2d.h\<close>,
  which is not among the sources, and is the parameter \<open>fluct_norm\<close>. The result is the
  returned flag, the store and the engine after the call.\<close>

definition participate ::
  "('f \<Rightarrow> int \<Rightarrow> int \<Rightarrow> int \<Rightarrow> int \<Rightarrow> real \<Rightarrow> real \<Rightarrow> real) \<Rightarrow> 'f NucleonProfile \<Rightarrow>
     addr \<Rightarrow> addr \<Rightarrow> store \<times> rng \<Rightarrow> bool \<times> store \<times> rng" where
  "participate fluct_norm P a b = (\<lambda>(s, g).
     if participant (s a) \<and> participant (s b) then (True, s, g)
     else
       let dx = nx (s a) - nx (s b);
           dy = ny (s a) - ny (s b);
           distance_sqr = dx * dx + dy * dy
       in if distance_sqr > max_impact_sqr P then (False, s, g)
          else
            let Kf = fluct_norm (field_generator P) (fi (s a)) (fj (s a)) (fi (s b)) (fj (s b)) dx dy;
                one_minus_prob = exp (- Kf * exp (cross_sec_param P - 0.25 * distance_sqr / width_sqr P));
                (u, g') = canonical g
            in if one_minus_prob < u
               then let s1 = s(a := set_participant (s a));
                        s2 = s1(b := set_participant (s1 b))
                    in (True, s2, g')
               else (False, s, g'))"

text \<open>The squared transverse distance of two stored nucleons, as \<^verbatim>\<open>participate\<close> computes it.\<close>

definition dist_sqr :: "store \<Rightarrow> addr \<Rightarrow> addr \<Rightarrow> real" where
  "dist_sqr s a b = (nx (s a) - nx (s b)) * (nx (s a) - nx (s b)) + (ny (s a) - ny (s b)) * (ny (s a) - ny (s b))"

section \<open>GammaInverseCDF (\<^verbatim>\<open>RFT::iCDF\<close>)\<close>

text \<open>The members \<^verbatim>\<open>N\<close>, \<^verbatim>\<open>fluct\<close>, \<^verbatim>\<open>dx_gamma\<close> and the two arrays. The spline object
  holds no data of its own: \<^verbatim>\<open>gsl_spline_init(spline, y_gamma_cdf, x_gamma, N)\<close> makes it the
  interpolant with abscissae \<^verbatim>\<open>y_gamma_cdf\<close> and ordinates \<^verbatim>\<open>x_gamma\<close>.\<close>

record iCDF =
  icdf_N :: nat
  fluct :: real
  dx_gamma :: real
  x_gamma :: "real list"
  y_gamma_cdf :: "real list"

text \<open>\<^verbatim>\<open>RFT::iCDF::iCDF\<close>. \<open>gamma_inc_P\<close> stands for the library function
  \<^verbatim>\<open>gsl_sf_gamma_inc_P\<close>. The table size is an \<^verbatim>\<open>int\<close> that is never negative here (the
  only caller passes 500).\<close>

definition iCDF_ctor :: "(real \<Rightarrow> real \<Rightarrow> real) \<Rightarrow> nat \<Rightarrow> real \<Rightarrow> iCDF" where
  "iCDF_ctor gamma_inc_P N' fluct' =
     (let dx = 10 * sqrt fluct' / real N';
          xs = map (\<lambda>i. real i * dx) [0..<N']
      in \<lparr>icdf_N = N', fluct = fluct', dx_gamma = dx,
          x_gamma = xs, y_gamma_cdf = map (gamma_inc_P fluct') xs\<rparr>)"

text \<open>\<^verbatim>\<open>gsl_spline_eval\<close> for a spline of type \<^verbatim>\<open>gsl_interp_linear\<close>: the segment is the one
  whose nodes enclose the argument (the last one when the argument is the last node), and
  the value is \<^verbatim>\<open>y_lo + (x - x_lo) / dx * (y_hi - y_lo)\<close> when \<^verbatim>\<open>dx > 0\<close>, else 0. The
  first list holds the abscissae, the second the ordinates.\<close>

fun linear_eval :: "real list \<Rightarrow> real list \<Rightarrow> real \<Rightarrow> real" where
  "linear_eval (x_lo # x_hi # xa) (y_lo # y_hi # ya) x =
     (if x < x_hi \<or> xa = []
      then (if x_hi - x_lo > 0 then y_lo + (x - x_lo) / (x_hi - x_lo) * (y_hi - y_lo) else 0)
      else linear_eval (x_hi # xa) (y_hi # ya) x)"
| "linear_eval _ _ _ = 0"

text \<open>\<^verbatim>\<open>RFT::iCDF::operator()\<close>. \<open>erf_Q\<close> stands for the library function
  \<^verbatim>\<open>gsl_sf_erf_Q\<close>, the upper tail of the standard normal distribution.\<close>

definition iCDF_apply :: "(real \<Rightarrow> real) \<Rightarrow> iCDF \<Rightarrow> real \<Rightarrow> real" where
  "iCDF_apply erf_Q t gaussian_X =
     (let cdf = 1 - erf_Q gaussian_X
      in if cdf < y_gamma_cdf t ! 0 then x_gamma t ! 0 / fluct t
         else if cdf > y_gamma_cdf t ! (icdf_N t - 1) then x_gamma t ! (icdf_N t - 1) / fluct t
         else
           let result = linear_eval (y_gamma_cdf t) (x_gamma t) cdf / fluct t
           in if result < 0 then 0 else result)"

section \<open>RandomFieldGenerator (\<^verbatim>\<open>RFT::rft2d\<close>)\<close>

text \<open>The type \<^verbatim>\<open>int\<close> of the source has 32 bits. A value of the model is an \<^verbatim>\<open>int\<close> of the
  code only inside this range; signed arithmetic that leaves it, and the conversion of a
  double whose truncation leaves it, are undefined behaviour.\<close>

definition in_int :: "int \<Rightarrow> bool" where
  "in_int z \<longleftrightarrow> - (2 ^ 31) \<le> z \<and> z \<le> 2 ^ 31 - 1"

text \<open>The conversion \<^verbatim>\<open>int(d)\<close> of a double truncates towards zero; \<open>None\<close> where the
  truncated value is no \<^verbatim>\<open>int\<close> and the conversion is undefined.\<close>

definition c_int :: "real \<Rightarrow> int option" where
  "c_int d =
     (let z = (if 0 \<le> d then \<lfloor>d\<rfloor> else \<lceil>d\<rceil>)
      in if in_int z then Some z else None)"

text \<open>The data members set by the constructor. The two FFTW arrays and the generator of
  normal deviates change with every realization and are kept in \<open>workspace\<close> below.\<close>

record rft2d =
  N1 :: int
  N2 :: int
  L1 :: real
  L2 :: real
  Var_x :: real
  Var_k :: real
  lx :: real
  coeff_k :: real
  dx1 :: real
  dx2 :: real
  dk1 :: real
  dk2 :: real
  icdf :: iCDF
  width :: real
  dxy2 :: real
  dxy :: real
  Ncut :: int
  seed :: int
  TAB_clip :: "real list list"

text \<open>How the construction can end without an object: a \<^verbatim>\<open>new\<close>-expression with a negative
  array size throws \<^verbatim>\<open>std::bad_array_new_length\<close>, a \<^verbatim>\<open>new\<close>-expression that gets no memory
  throws \<^verbatim>\<open>std::bad_alloc\<close>, and an integer overflow or an undefined conversion leaves the
  behaviour of the program undefined.\<close>

datatype failure = bad_array_new_length | bad_alloc | undefined_behaviour

text \<open>One entry of the kernel table, as the inner loop body computes it from the members
  \<^verbatim>\<open>Ncut\<close>, \<^verbatim>\<open>dxy2\<close> and \<^verbatim>\<open>width\<close>. \<^verbatim>\<open>ic*ic+jc*jc\<close> is arithmetic on \<^verbatim>\<open>int\<close>; \<open>None\<close> where
  it overflows.\<close>

definition TAB_entry :: "int \<Rightarrow> real \<Rightarrow> real \<Rightarrow> nat \<Rightarrow> nat \<Rightarrow> real option" where
  "TAB_entry ncut d2 w i j =
     (let ic = int i - ncut;
          jc = int j - ncut
      in if in_int (ic * ic) \<and> in_int (jc * jc) \<and> in_int (ic * ic + jc * jc)
         then Some (exp (- real_of_int (ic * ic + jc * jc) * d2 / w / w) * d2 / (pi * w * w))
         else None)"

text \<open>The outer loop over the rows \<open>i\<close> of the table: each row is obtained from
  \<^verbatim>\<open>new double[Ncut*2+1]\<close> and then filled. Whether a \<^verbatim>\<open>new\<close>-expression gets its memory
  is not decided by the program: \<open>new_ok k\<close> tells it for the \<open>k\<close>-th \<^verbatim>\<open>new\<close>-expression that
  the construction evaluates.\<close>

fun TAB_rows ::
  "(nat \<Rightarrow> bool) \<Rightarrow> nat \<Rightarrow> int \<Rightarrow> real \<Rightarrow> real \<Rightarrow> nat \<Rightarrow> nat list \<Rightarrow> failure + real list list" where
  "TAB_rows new_ok k ncut d2 w side [] = Inr []"
| "TAB_rows new_ok k ncut d2 w side (i # rest) =
     (if \<not> new_ok k then Inl bad_alloc
      else case those (map (TAB_entry ncut d2 w i) [0..<side]) of
             None \<Rightarrow> Inl undefined_behaviour
           | Some row \<Rightarrow>
               (case TAB_rows new_ok (Suc k) ncut d2 w side rest of
                  Inl e \<Rightarrow> Inl e
                | Inr rows \<Rightarrow> Inr (row # rows)))"

text \<open>\<^verbatim>\<open>RFT::rft2d::rft2d\<close>: the member initialisers in the order of the source, then the
  kernel table. The first two \<^verbatim>\<open>new\<close>-expressions are the two arrays of the member \<^verbatim>\<open>icdf\<close>,
  the third is \<^verbatim>\<open>new double*[Ncut*2+1]\<close>, the rows follow. \<^verbatim>\<open>fftw_malloc\<close> and the planner
  report failure by a null pointer that the constructor does not look at. With \<^verbatim>\<open>L1_\<close>
  zero the operand of \<^verbatim>\<open>int(...)\<close> is infinite or not a number and the conversion is
  undefined.

  Doubles are read as reals. A member whose initialiser divides by a zero \<^verbatim>\<open>N1_\<close>,
  \<^verbatim>\<open>N2_\<close>, \<^verbatim>\<open>L2_\<close> or \<^verbatim>\<open>width_\<close>, or takes the root of a negative number, is infinite or
  not a number in the code; no real stands for it, and what is proved below of such a
  member assumes the divisor non-zero.\<close>

definition rft2d_ctor ::
  "(real \<Rightarrow> real \<Rightarrow> real) \<Rightarrow> (nat \<Rightarrow> bool) \<Rightarrow>
     int \<Rightarrow> int \<Rightarrow> real \<Rightarrow> real \<Rightarrow> real \<Rightarrow> real \<Rightarrow> int \<Rightarrow> real \<Rightarrow> failure + rft2d" where
  "rft2d_ctor gamma_inc_P new_ok N1' N2' L1' L2' Var_Phi' lx' seed' width' =
     (if \<not> (new_ok 0 \<and> new_ok 1) then Inl bad_alloc
      else if L1' = 0 then Inl undefined_behaviour
      else case c_int (3 * width' * real_of_int N1' / L1') of
        None \<Rightarrow> Inl undefined_behaviour
      | Some ncut \<Rightarrow>
          if \<not> (in_int (ncut * 2) \<and> in_int (ncut * 2 + 1)) then Inl undefined_behaviour
          else
            let d2 = L1' * L2' / real_of_int N1' / real_of_int N2';
                side = ncut * 2 + 1
            in if side < 0 then Inl bad_array_new_length
               else if \<not> new_ok 2 then Inl bad_alloc
               else case TAB_rows new_ok 3 ncut d2 width' (nat side) [0..<nat side] of
                 Inl e \<Rightarrow> Inl e
               | Inr tab \<Rightarrow> Inr
                  \<lparr>N1 = N1', N2 = N2', L1 = L1', L2 = L2',
                   Var_x = Var_Phi',
                   Var_k = sqrt (pi * 2 * lx' * lx' / real_of_int N1' / real_of_int N2' / L1' / L2'),
                   lx = lx', coeff_k = - pi * pi * 2 * lx' * lx',
                   dx1 = L1' / real_of_int N1', dx2 = L2' / real_of_int N2',
                   dk1 = 1 / L1', dk2 = 1 / L2',
                   icdf = iCDF_ctor gamma_inc_P 500 Var_Phi',
                   width = width', dxy2 = d2, dxy = L1' / real_of_int N1',
                   Ncut = ncut, seed = seed',
                   TAB_clip = tab\<rparr>)"


text \<open>The four bounds that keep the window of half-width \<^verbatim>\<open>Ncut\<close> around a nucleon's
  anchor inside the \<^verbatim>\<open>N1\<close> by \<^verbatim>\<open>N2\<close> grid.\<close>

definition anchor_in_grid :: "rft2d \<Rightarrow> Nucleon \<Rightarrow> bool" where
  "anchor_in_grid r n \<longleftrightarrow>
     fi n - Ncut r \<ge> 0 \<and> fi n + Ncut r \<le> N1 r - 1 \<and>
     fj n - Ncut r \<ge> 0 \<and> fj n + Ncut r \<le> N2 r - 1"

subsection \<open>The spectral workspace\<close>

text \<open>\<^verbatim>\<open>phi_x\<close> and \<^verbatim>\<open>phi_k\<close> are arrays of \<^verbatim>\<open>N1*N2\<close> cells of type \<^verbatim>\<open>fftw_complex\<close>, a pair
  of doubles (channel 0 real, channel 1 imaginary). \<open>noise\<close> is what
  \<^verbatim>\<open>white_noise_generator(generator)\<close> yields, call after call, and \<open>noise_pos\<close> counts the
  calls.\<close>

record workspace =
  phi_x :: "(real \<times> real) list"
  phi_k :: "(real \<times> real) list"
  noise_pos :: nat
  noise :: "nat \<Rightarrow> real"

text \<open>The cells \<open>(i, j)\<close> in the order the two nested loops
  \<^verbatim>\<open>for (i = 0; i < N1; i++) for (j = 0; j < N2; j++)\<close> visit them.\<close>

definition grid_loop :: "int \<Rightarrow> int \<Rightarrow> (nat \<times> nat) list" where
  "grid_loop n1 n2 = concat (map (\<lambda>i. map (\<lambda>j. (i, j)) [0..<nat n2]) [0..<nat n1])"

text \<open>The array index \<^verbatim>\<open>i*N1+j\<close> both loop bodies use: the product, then the sum, on
  \<^verbatim>\<open>int\<close>; \<open>None\<close> where one of them overflows.\<close>

definition cell_index :: "int \<Rightarrow> nat \<times> nat \<Rightarrow> int option" where
  "cell_index n1 = (\<lambda>(i, j).
     if in_int (int i * n1) \<and> in_int (int i * n1 + int j)
     then Some (int i * n1 + int j) else None)"

text \<open>The loop body of \<^verbatim>\<open>real_space_white_noise\<close>. An overflow of the index and a write
  outside the array are undefined behaviour and end the run with \<open>None\<close>.\<close>

definition white_noise_cell :: "rft2d \<Rightarrow> nat \<times> nat \<Rightarrow> workspace \<Rightarrow> workspace option" where
  "white_noise_cell r c w =
     (case cell_index (N1 r) c of
        None \<Rightarrow> None
      | Some k \<Rightarrow>
          if 0 \<le> k \<and> nat k < length (phi_x w)
          then Some (w\<lparr>phi_x := (phi_x w)[nat k := (noise w (noise_pos w), 0)],
                       noise_pos := Suc (noise_pos w)\<rparr>)
          else None)"

text \<open>Running a loop body over the cells, stopping at the first failure.\<close>

fun for_cells :: "('c \<Rightarrow> 'w \<Rightarrow> 'w option) \<Rightarrow> 'c list \<Rightarrow> 'w \<Rightarrow> 'w option" where
  "for_cells body [] w = Some w"
| "for_cells body (c # cs) w = (case body c w of None \<Rightarrow> None | Some w' \<Rightarrow> for_cells body cs w')"

definition real_space_white_noise :: "rft2d \<Rightarrow> workspace \<Rightarrow> workspace option" where
  "real_space_white_noise r w = for_cells (white_noise_cell r) (grid_loop (N1 r) (N2 r)) w"

text \<open>The factor \<^verbatim>\<open>ker\<close> that the loop body of \<^verbatim>\<open>apply_k_spcae_propagation\<close> computes
  for \<open>(i, j)\<close>; \<^verbatim>\<open>std::min(i, N1-i)\<close> is integer arithmetic.\<close>

definition ker :: "rft2d \<Rightarrow> nat \<times> nat \<Rightarrow> real" where
  "ker r = (\<lambda>(i, j).
     let si = real_of_int (min (int i) (N1 r - int i)) / L1 r;
         sj = real_of_int (min (int j) (N2 r - int j)) / L2 r;
         nr2 = 0.5 * coeff_k r * (si ^ 2 + sj ^ 2)
     in Var_k r * exp nr2)"

definition propagation_cell :: "rft2d \<Rightarrow> nat \<times> nat \<Rightarrow> workspace \<Rightarrow> workspace option" where
  "propagation_cell r c w =
     (case cell_index (N1 r) c of
        None \<Rightarrow> None
      | Some k \<Rightarrow>
          if 0 \<le> k \<and> nat k < length (phi_k w)
          then Some (w\<lparr>phi_k := (phi_k w)[nat k :=
                         (fst (phi_k w ! nat k) * ker r c, snd (phi_k w ! nat k) * ker r c)]\<rparr>)
          else None)"

definition apply_k_spcae_propagation :: "rft2d \<Rightarrow> workspace \<Rightarrow> workspace option" where
  "apply_k_spcae_propagation r w = for_cells (propagation_cell r) (grid_loop (N1 r) (N2 r)) w"

text \<open>\<^verbatim>\<open>RFT::rft2d::run\<close>. The two FFTW plans are the parameters \<open>x2k\<close> (from \<^verbatim>\<open>phi_x\<close> to
  \<^verbatim>\<open>phi_k\<close>) and \<open>k2x\<close> (from \<^verbatim>\<open>phi_k\<close> to \<^verbatim>\<open>phi_x\<close>).\<close>

definition run ::
  "((real \<times> real) list \<Rightarrow> (real \<times> real) list) \<Rightarrow> ((real \<times> real) list \<Rightarrow> (real \<times> real) list) \<Rightarrow>
     rft2d \<Rightarrow> workspace \<Rightarrow> workspace option" where
  "run x2k k2x r w =
     (case real_space_white_noise r w of None \<Rightarrow> None
      | Some w1 \<Rightarrow>
          (case apply_k_spcae_propagation r (w1\<lparr>phi_k := x2k (phi_x w1)\<rparr>) of None \<Rightarrow> None
           | Some w3 \<Rightarrow> Some (w3\<lparr>phi_x := k2x (phi_k w3)\<rparr>)))"

section \<open>The participation decision\<close>

lemma participate_near:
  assumes "\<not> (participant (s a) \<and> participant (s b))"
    and "\<not> dist_sqr s a b > max_impact_sqr P"
  shows "participate K P a b (s, g) =
    (let q = exp (- K (field_generator P) (fi (s a)) (fj (s a)) (fi (s b)) (fj (s b))
                       (nx (s a) - nx (s b)) (ny (s a) - ny (s b))
                  * exp (cross_sec_param P - dist_sqr s a b / (4 * width_sqr P)));
         u = rng_unit g (rng_pos g);
         g' = g\<lparr>rng_pos := Suc (rng_pos g)\<rparr>
     in if q < u then (True, s(a := set_participant (s a), b := set_participant (s b)), g')
        else (False, s, g'))"
proof -
  have e: "s(a := set_participant (s a), b := set_participant ((s(a := set_participant (s a))) b))
      = s(a := set_participant (s a), b := set_participant (s b))"
    by (auto simp: fun_eq_iff set_participant_def)
  have c: "(participant (s a) \<and> participant (s b)) = False" using assms(1) by simp
  have d: "(max_impact_sqr P < dist_sqr s a b) = False" using assms(2) by simp
  show ?thesis
    unfolding participate_def Let_def canonical_def split_conv dist_sqr_def[symmetric] c d e
    by simp
qed

lemma participate_both:
  "participant (s a) \<Longrightarrow> participant (s b) \<Longrightarrow> participate K P a b (s, g) = (True, s, g)"
  by (simp add: participate_def)

lemma participate_far:
  assumes "\<not> (participant (s a) \<and> participant (s b))" and "dist_sqr s a b > max_impact_sqr P"
  shows "participate K P a b (s, g) = (False, s, g)"
proof -
  have c: "(participant (s a) \<and> participant (s b)) = False" using assms(1) by simp
  have d: "(max_impact_sqr P < dist_sqr s a b) = True" using assms(2) by simp
  show ?thesis
    unfolding participate_def Let_def split_conv dist_sqr_def[symmetric] c d by simp
qed

text \<open>
  C1. When the two nucleons are not both participants already and their squared distance
  is at most \<^verbatim>\<open>max_impact_sqr_\<close>, \<^verbatim>\<open>participate\<close> asks the field generator for \<open>Kf\<close> with the
  anchors of both nucleons and their separation, forms
  \<open>q = exp (- Kf * exp (cross_sec_param - d\<^sup>2 / (4 * width\<^sup>2)))\<close>, takes exactly one real \<open>u\<close>
  from the engine (in \<open>[0,1)\<close> when the engine keeps its contract) and, when \<open>q < u\<close>, sets the
  participant flag of both nucleons and returns true; otherwise it returns false and the
  store is unchanged. Doubles are read as reals.
\<close>

theorem participate_decision:
  assumes "\<not> (participant (s a) \<and> participant (s b))"
    and "dist_sqr s a b \<le> max_impact_sqr P"
    and "unit_stream g"
  shows "let Kf = K (field_generator P) (fi (s a)) (fj (s a)) (fi (s b)) (fj (s b))
                     (nx (s a) - nx (s b)) (ny (s a) - ny (s b));
             q = exp (- Kf * exp (cross_sec_param P - dist_sqr s a b / (4 * width_sqr P)));
             (u, g') = canonical g
         in 0 \<le> u \<and> u < 1 \<and> rng_pos g' = rng_pos g + 1 \<and>
            participate K P a b (s, g) =
              (if q < u
               then (True, s(a := (s a)\<lparr>participant := True\<rparr>, b := (s b)\<lparr>participant := True\<rparr>), g')
               else (False, s, g'))"
proof -
  have n: "\<not> dist_sqr s a b > max_impact_sqr P" using assms(2) by simp
  have u: "0 \<le> rng_unit g (rng_pos g) \<and> rng_unit g (rng_pos g) < 1"
    using assms(3) by (simp add: unit_stream_def)
  show ?thesis
    using u by (simp add: participate_near [OF assms(1) n] Let_def canonical_def set_participant_def)
qed

theorem participate_decision_witness:
  "participate (\<lambda>f ia ja ib jb dx dy. 1)
     \<lparr>field_generator = (), width_sqr = 1/2, trunc_radius_sqr = 9, max_impact_sqr = 10,
      neg_one_div_two_width_sqr = - 1, cross_sec_param = ln (ln 2), fast_exp = exp, prefactor = 1\<rparr>
     0 1
     (\<lambda>p. \<lparr>nx = 0, ny = 0, fi = 25, fj = 25, participant = False\<rparr>,
      \<lparr>rng_pos = 0, rng_raw = (\<lambda>n. 0), rng_unit = (\<lambda>n. 3/5)\<rparr>)
   = (True,
      (\<lambda>p. \<lparr>nx = 0, ny = 0, fi = 25, fj = 25, participant = False\<rparr>)
        (0 := \<lparr>nx = 0, ny = 0, fi = 25, fj = 25, participant = True\<rparr>,
         1 := \<lparr>nx = 0, ny = 0, fi = 25, fj = 25, participant = True\<rparr>),
      \<lparr>rng_pos = 1, rng_raw = (\<lambda>n. 0), rng_unit = (\<lambda>n. 3/5)\<rparr>)"
proof -
  let ?s = "\<lambda>p::nat. \<lparr>nx = 0, ny = 0, fi = 25, fj = 25, participant = False\<rparr>"
  let ?g = "\<lparr>rng_pos = 0, rng_raw = (\<lambda>n. 0), rng_unit = (\<lambda>n. 3/5)\<rparr>"
  let ?P = "\<lparr>field_generator = (), width_sqr = 1/2, trunc_radius_sqr = 9, max_impact_sqr = 10,
      neg_one_div_two_width_sqr = - 1, cross_sec_param = ln (ln 2), fast_exp = exp, prefactor = 1\<rparr>"
  have h1: "\<not> (participant (?s 0) \<and> participant (?s 1))" by simp
  have h2: "dist_sqr ?s 0 1 \<le> max_impact_sqr ?P" by (simp add: dist_sqr_def)
  have h3: "unit_stream ?g" by (simp add: unit_stream_def)
  have l: "0 < ln (2::real)" by simp
  have q: "exp (- ln (2::real)) = 1/2"
    by (simp add: exp_minus inverse_eq_divide)
  show ?thesis
    using participate_decision [OF h1 h2 h3, of "\<lambda>f ia ja ib jb dx dy. 1"]
    by (simp add: dist_sqr_def canonical_def q)
qed

text \<open>
  C2. \<^verbatim>\<open>participate\<close> leaves the engine and the store as they are in its two early exits:
  it returns true when both nucleons are participants already, and it returns false when
  they are not both participants and their squared distance exceeds \<^verbatim>\<open>max_impact_sqr_\<close>,
  whatever the field generator would answer. In every other case the engine has advanced by
  exactly one draw.
\<close>

theorem participate_draws:
  "let both = participant (s a) \<and> participant (s b);
       far = dist_sqr s a b > max_impact_sqr P;
       (r, s', g') = participate K P a b (s, g)
   in (both \<longrightarrow> r \<and> s' = s \<and> g' = g) \<and>
      (\<not> both \<and> far \<longrightarrow> \<not> r \<and> s' = s \<and> g' = g) \<and>
      (\<not> both \<and> \<not> far \<longrightarrow> g' = snd (canonical g) \<and> rng_pos g' = rng_pos g + 1)"
proof (cases "participant (s a) \<and> participant (s b)")
  case True
  then show ?thesis by (simp add: participate_both)
next
  case nb: False
  show ?thesis
  proof (cases "dist_sqr s a b > max_impact_sqr P")
    case True
    with nb show ?thesis by (simp add: participate_far [OF nb True])
  next
    case False
    with nb show ?thesis
      by (auto simp: participate_near [OF nb False] Let_def canonical_def)
  qed
qed

theorem participate_draws_witness:
  "participate (\<lambda>f ia ja ib jb dx dy. 1)
     \<lparr>field_generator = (), width_sqr = 1/2, trunc_radius_sqr = 9, max_impact_sqr = 10,
      neg_one_div_two_width_sqr = - 1, cross_sec_param = 0, fast_exp = exp, prefactor = 1\<rparr>
     0 1
     ((\<lambda>p. \<lparr>nx = 0, ny = 0, fi = 25, fj = 25, participant = False\<rparr>)
        (1 := \<lparr>nx = 4, ny = 0, fi = 30, fj = 30, participant = True\<rparr>),
      \<lparr>rng_pos = 7, rng_raw = (\<lambda>n. 0), rng_unit = (\<lambda>n. 3/5)\<rparr>)
   = (False,
      (\<lambda>p. \<lparr>nx = 0, ny = 0, fi = 25, fj = 25, participant = False\<rparr>)
        (1 := \<lparr>nx = 4, ny = 0, fi = 30, fj = 30, participant = True\<rparr>),
      \<lparr>rng_pos = 7, rng_raw = (\<lambda>n. 0), rng_unit = (\<lambda>n. 3/5)\<rparr>)"
  using participate_draws [of
      "(\<lambda>p. \<lparr>nx = 0, ny = 0, fi = 25, fj = 25, participant = False\<rparr>)
        (1 := \<lparr>nx = 4, ny = 0, fi = 30, fj = 30, participant = True\<rparr>)" 0 1
      "\<lparr>field_generator = (), width_sqr = 1/2, trunc_radius_sqr = 9, max_impact_sqr = 10,
      neg_one_div_two_width_sqr = - 1, cross_sec_param = 0, fast_exp = exp, prefactor = 1\<rparr>"
      "\<lambda>f ia ja ib jb dx dy. 1"
      "\<lparr>rng_pos = 7, rng_raw = (\<lambda>n. 0), rng_unit = (\<lambda>n. 3/5)\<rparr>"]
  by (simp add: dist_sqr_def Let_def split: prod.splits)

section \<open>The truncated thickness profile\<close>

lemma thickness_not_cont:
  assumes c: "isCont (thickness P) (trunc_radius_sqr P)"
  shows "thickness P (trunc_radius_sqr P) = 0"
proof (rule ccontr)
  let ?R = "trunc_radius_sqr P"
  assume nz: "thickness P ?R \<noteq> 0"
  then have e: "0 < \<bar>thickness P ?R\<bar>" by simp
  from c [unfolded isCont_def LIM_def, rule_format, OF e]
  obtain dl where dl: "0 < dl" "\<forall>x'. x' \<noteq> ?R \<and> dist x' ?R < dl \<longrightarrow> dist (thickness P x') (thickness P ?R) < \<bar>thickness P ?R\<bar>"
    by blast
  have "?R + dl / 2 \<noteq> ?R \<and> dist (?R + dl / 2) ?R < dl" using dl(1) by (simp add: dist_real_def)
  with dl(2) have "dist (thickness P (?R + dl / 2)) (thickness P ?R) < \<bar>thickness P ?R\<bar>" by blast
  moreover have "thickness P (?R + dl / 2) = 0" using dl(1) by (simp add: thickness_def)
  ultimately show False by (simp add: dist_real_def)
qed

lemma thickness_cont_left:
  assumes "isCont (fast_exp P) (neg_one_div_two_width_sqr P * trunc_radius_sqr P)"
  shows "continuous (at_left (trunc_radius_sqr P)) (thickness P)"
proof -
  let ?R = "trunc_radius_sqr P"
  let ?g = "\<lambda>d. prefactor P * fast_exp P (neg_one_div_two_width_sqr P * d)"
  have 1: "isCont (\<lambda>d. neg_one_div_two_width_sqr P * d) ?R" by simp
  have 2: "isCont (\<lambda>d. fast_exp P (neg_one_div_two_width_sqr P * d)) ?R"
    by (rule isCont_o2 [OF 1 assms])
  have "isCont ?g ?R"
    by (rule continuous_mult [OF continuous_const 2])
  then have "continuous (at_left ?R) ?g"
    by (rule continuous_at_imp_continuous_at_within)
  then have g: "(?g \<longlongrightarrow> ?g ?R) (at_left ?R)"
    by (simp add: continuous_within)
  have "eventually (\<lambda>d. thickness P d = ?g d) (at_left ?R)"
    by (simp add: eventually_at_filter thickness_def)
  then have "(thickness P \<longlongrightarrow> ?g ?R) (at_left ?R)"
    using g by (simp add: tendsto_cong)
  then show ?thesis
    by (simp add: continuous_within thickness_def)
qed

text \<open>
  C4, as stated, fails in its last part: \<^verbatim>\<open>thickness\<close> is not continuous at the truncation
  boundary. With prefactor 1, squared width 1/2, squared truncation radius 1 and the exact exponential
  for \<^verbatim>\<open>fast_exp_\<close>, the value at 1 is \<open>exp (-1)\<close> and the value everywhere above 1 is 0.
\<close>

theorem thickness_jump_counterexample:
  "\<not> isCont (thickness \<lparr>field_generator = (), width_sqr = 1/2, trunc_radius_sqr = 1,
        max_impact_sqr = 10, neg_one_div_two_width_sqr = - 1, cross_sec_param = 0,
        fast_exp = exp, prefactor = 1\<rparr>) 1"
proof
  let ?P = "\<lparr>field_generator = (), width_sqr = 1/2, trunc_radius_sqr = 1,
        max_impact_sqr = 10, neg_one_div_two_width_sqr = - 1, cross_sec_param = 0,
        fast_exp = exp, prefactor = 1\<rparr>"
  assume "isCont (thickness ?P) 1"
  then have "isCont (thickness ?P) (trunc_radius_sqr ?P)" by simp
  then have "thickness ?P (trunc_radius_sqr ?P) = 0" by (rule thickness_not_cont)
  then show False by (simp add: thickness_def)
qed

text \<open>
  C4, amended. \<^verbatim>\<open>thickness(distance_sqr)\<close> returns exactly 0 when \<^verbatim>\<open>distance_sqr\<close> exceeds the
  squared truncation radius and \<open>prefactor * fast_exp (- distance_sqr / (2 * width\<^sup>2))\<close> otherwise,
  the boundary itself included. At the boundary the function is continuous from the left
  (when the fast exponential is continuous there), and it is continuous there only if the
  boundary value is 0: otherwise it drops to 0 right above the boundary.
\<close>

theorem thickness_truncated:
  assumes "cached_width P"
  shows "(d > trunc_radius_sqr P \<longrightarrow> thickness P d = 0) \<and>
         (d \<le> trunc_radius_sqr P \<longrightarrow>
            thickness P d = prefactor P * fast_exp P (- d / (2 * width_sqr P))) \<and>
         (isCont (fast_exp P) (- trunc_radius_sqr P / (2 * width_sqr P)) \<longrightarrow>
            continuous (at_left (trunc_radius_sqr P)) (thickness P)) \<and>
         (isCont (thickness P) (trunc_radius_sqr P) \<longrightarrow>
            prefactor P * fast_exp P (- trunc_radius_sqr P / (2 * width_sqr P)) = 0)"
proof -
  have n: "neg_one_div_two_width_sqr P * x = - x / (2 * width_sqr P)" for x
    using assms by (simp add: cached_width_def)
  have a: "d > trunc_radius_sqr P \<longrightarrow> thickness P d = 0"
    by (simp add: thickness_def)
  have b: "d \<le> trunc_radius_sqr P \<longrightarrow>
            thickness P d = prefactor P * fast_exp P (- d / (2 * width_sqr P))"
    by (simp add: thickness_def n)
  have c: "isCont (fast_exp P) (- trunc_radius_sqr P / (2 * width_sqr P)) \<longrightarrow>
            continuous (at_left (trunc_radius_sqr P)) (thickness P)"
    using thickness_cont_left [of P] by (simp add: n)
  have d: "isCont (thickness P) (trunc_radius_sqr P) \<longrightarrow>
            prefactor P * fast_exp P (- trunc_radius_sqr P / (2 * width_sqr P)) = 0"
    using thickness_not_cont [of P] by (simp add: thickness_def n)
  show ?thesis using a b c d by (intro conjI)
qed

theorem thickness_truncated_witness:
  "thickness \<lparr>field_generator = (), width_sqr = 1/2, trunc_radius_sqr = 1,
        max_impact_sqr = 10, neg_one_div_two_width_sqr = - 1, cross_sec_param = 0,
        fast_exp = exp, prefactor = 1\<rparr> 2 = 0 \<and>
   thickness \<lparr>field_generator = (), width_sqr = 1/2, trunc_radius_sqr = 1,
        max_impact_sqr = 10, neg_one_div_two_width_sqr = - 1, cross_sec_param = 0,
        fast_exp = exp, prefactor = 1\<rparr> 1 = exp (- 1) \<and>
   continuous (at_left 1) (thickness \<lparr>field_generator = (), width_sqr = 1/2, trunc_radius_sqr = 1,
        max_impact_sqr = 10, neg_one_div_two_width_sqr = - 1, cross_sec_param = 0,
        fast_exp = exp, prefactor = 1\<rparr>)"
proof -
  let ?P = "\<lparr>field_generator = (), width_sqr = 1/2, trunc_radius_sqr = 1,
        max_impact_sqr = 10, neg_one_div_two_width_sqr = - 1, cross_sec_param = 0,
        fast_exp = exp, prefactor = 1\<rparr>"
  have h: "cached_width ?P" by (simp add: cached_width_def)
  have "thickness ?P 2 = 0"
    using thickness_truncated [OF h, of 2] by simp
  moreover have "thickness ?P 1 = exp (- 1)"
    using thickness_truncated [OF h, of 1] by simp
  moreover have "continuous (at_left 1) (thickness ?P)"
    using thickness_truncated [OF h, of 1] by simp
  ultimately show ?thesis by (intro conjI)
qed

section \<open>The inverse CDF table\<close>

subsection \<open>Linear interpolation over an increasing table\<close>

lemma seg_ge:
  fixes x :: real
  assumes "x_lo < x_hi" "y_lo \<le> y_hi" "x_lo \<le> x"
  shows "y_lo \<le> y_lo + (x - x_lo) / (x_hi - x_lo) * (y_hi - y_lo)"
proof -
  have "0 \<le> (x - x_lo) / (x_hi - x_lo)" using assms by simp
  then have "0 \<le> (x - x_lo) / (x_hi - x_lo) * (y_hi - y_lo)"
    using assms(2) by (intro mult_nonneg_nonneg) simp_all
  then show ?thesis by simp
qed

lemma seg_mono:
  fixes x :: real
  assumes "x_lo < x_hi" "y_lo \<le> y_hi" "x \<le> x'"
  shows "y_lo + (x - x_lo) / (x_hi - x_lo) * (y_hi - y_lo)
       \<le> y_lo + (x' - x_lo) / (x_hi - x_lo) * (y_hi - y_lo)"
proof -
  have "(x - x_lo) / (x_hi - x_lo) \<le> (x' - x_lo) / (x_hi - x_lo)"
    using assms(1,3) by (intro divide_right_mono) simp_all
  then have "(x - x_lo) / (x_hi - x_lo) * (y_hi - y_lo) \<le> (x' - x_lo) / (x_hi - x_lo) * (y_hi - y_lo)"
    using assms(2) by (intro mult_right_mono) simp_all
  then show ?thesis by simp
qed

lemma seg_le:
  fixes x :: real
  assumes "x_lo < x_hi" "y_lo \<le> y_hi" "x \<le> x_hi"
  shows "y_lo + (x - x_lo) / (x_hi - x_lo) * (y_hi - y_lo) \<le> y_hi"
proof -
  have "y_lo + (x - x_lo) / (x_hi - x_lo) * (y_hi - y_lo)
      \<le> y_lo + (x_hi - x_lo) / (x_hi - x_lo) * (y_hi - y_lo)"
    by (rule seg_mono [OF assms])
  also have "\<dots> = y_hi" using assms(1) by simp
  finally show ?thesis .
qed

lemma linear_eval_ge_hd:
  assumes "length xa = length ya" "sorted_wrt (<) xa" "sorted ya" "2 \<le> length xa" "hd xa \<le> x"
  shows "hd ya \<le> linear_eval xa ya x"
  using assms
proof (induction xa ya x rule: linear_eval.induct)
  case (1 x_lo x_hi xa y_lo y_hi ya x)
  have lt: "x_lo < x_hi" and le: "y_lo \<le> y_hi" using "1.prems" by simp_all
  show ?case
  proof (cases "x < x_hi \<or> xa = []")
    case True
    have "y_lo \<le> y_lo + (x - x_lo) / (x_hi - x_lo) * (y_hi - y_lo)"
      using lt le "1.prems"(5) by (intro seg_ge) simp_all
    then show ?thesis using True lt by simp
  next
    case False
    have "hd (y_hi # ya) \<le> linear_eval (x_hi # xa) (y_hi # ya) x"
      using False "1.prems" by (intro "1.IH") (auto simp: Suc_le_eq)
    then show ?thesis using False le by simp
  qed
qed simp_all

lemma linear_eval_le_last:
  assumes "length xa = length ya" "sorted_wrt (<) xa" "sorted ya" "2 \<le> length xa" "x \<le> last xa"
  shows "linear_eval xa ya x \<le> last ya"
  using assms
proof (induction xa ya x rule: linear_eval.induct)
  case (1 x_lo x_hi xa y_lo y_hi ya x)
  have lt: "x_lo < x_hi" and le: "y_lo \<le> y_hi" using "1.prems" by simp_all
  show ?case
  proof (cases "xa = []")
    case True
    then have "ya = []" using "1.prems"(1) by simp
    have "y_lo + (x - x_lo) / (x_hi - x_lo) * (y_hi - y_lo) \<le> y_hi"
      using lt le "1.prems"(5) True by (intro seg_le) simp_all
    then show ?thesis using True \<open>ya = []\<close> lt by simp
  next
    case ne: False
    then have ne': "ya \<noteq> []" using "1.prems"(1) by auto
    have hi: "y_hi \<le> last ya" using "1.prems"(3) ne' by auto
    show ?thesis
    proof (cases "x < x_hi")
      case True
      have "y_lo + (x - x_lo) / (x_hi - x_lo) * (y_hi - y_lo) \<le> y_hi"
        using lt le True by (intro seg_le) simp_all
      then show ?thesis using True lt hi ne' by simp
    next
      case False
      have "linear_eval (x_hi # xa) (y_hi # ya) x \<le> last (y_hi # ya)"
        using False ne "1.prems" by (intro "1.IH") (auto simp: Suc_le_eq)
      then show ?thesis using False ne ne' by simp
    qed
  qed
qed simp_all

lemma linear_eval_mono:
  assumes "length xa = length ya" "sorted_wrt (<) xa" "sorted ya" "2 \<le> length xa" "x \<le> x'"
  shows "linear_eval xa ya x \<le> linear_eval xa ya x'"
  using assms
proof (induction xa ya x rule: linear_eval.induct)
  case (1 x_lo x_hi xa y_lo y_hi ya x)
  have lt: "x_lo < x_hi" and le: "y_lo \<le> y_hi" using "1.prems" by simp_all
  have seg: "y_lo + (x - x_lo) / (x_hi - x_lo) * (y_hi - y_lo)
       \<le> y_lo + (x' - x_lo) / (x_hi - x_lo) * (y_hi - y_lo)"
    using lt le "1.prems"(5) by (rule seg_mono)
  show ?case
  proof (cases "x' < x_hi \<or> xa = []")
    case True
    then have "x < x_hi \<or> xa = []" using "1.prems"(5) by auto
    then show ?thesis using True lt seg by simp
  next
    case far: False
    have tl: "length (x_hi # xa) = length (y_hi # ya)" "sorted_wrt (<) (x_hi # xa)"
      "sorted (y_hi # ya)" "2 \<le> length (x_hi # xa)"
      using far "1.prems" by (auto simp: Suc_le_eq)
    show ?thesis
    proof (cases "x < x_hi")
      case True
      have "y_lo + (x - x_lo) / (x_hi - x_lo) * (y_hi - y_lo) \<le> y_hi"
        using lt le True by (intro seg_le) simp_all
      also have "y_hi \<le> linear_eval (x_hi # xa) (y_hi # ya) x'"
        using linear_eval_ge_hd [OF tl, of x'] far by simp
      finally show ?thesis using True far lt by simp
    next
      case False
      have "linear_eval (x_hi # xa) (y_hi # ya) x \<le> linear_eval (x_hi # xa) (y_hi # ya) x'"
        using False far tl "1.prems"(5) by (intro "1.IH") auto
      then show ?thesis using False far by simp
    qed
  qed
qed simp_all

lemma linear_eval_segment:
  assumes "length xa = length ya" "sorted_wrt (<) xa" "i + 1 < length xa"
    and "xa ! i \<le> x" "x < xa ! (i + 1) \<or> i + 2 = length xa"
  shows "linear_eval xa ya x =
     ya ! i + (x - xa ! i) / (xa ! (i + 1) - xa ! i) * (ya ! (i + 1) - ya ! i)"
  using assms
proof (induction xa ya x arbitrary: i rule: linear_eval.induct)
  case (1 x_lo x_hi xa y_lo y_hi ya x)
  have lt: "x_lo < x_hi" using "1.prems"(2) by simp
  show ?case
  proof (cases i)
    case 0
    then have "x < x_hi \<or> xa = []" using "1.prems"(5) by auto
    then show ?thesis using 0 lt by simp
  next
    case (Suc i')
    have i': "i' < length (x_hi # xa)" using "1.prems"(3) Suc by simp
    have "x_hi \<le> (x_hi # xa) ! i'"
      using "1.prems"(2) i' by (cases i') (auto simp: less_imp_le)
    then have ge: "x_hi \<le> x" using "1.prems"(4) Suc by simp
    have ne: "xa \<noteq> []" using "1.prems"(3) Suc by auto
    have "linear_eval (x_hi # xa) (y_hi # ya) x =
      (y_hi # ya) ! i' + (x - (x_hi # xa) ! i') / ((x_hi # xa) ! (i' + 1) - (x_hi # xa) ! i')
         * ((y_hi # ya) ! (i' + 1) - (y_hi # ya) ! i')"
      using ge ne "1.prems" Suc by (intro "1.IH") auto
    then show ?thesis using ge ne Suc by simp
  qed
qed simp_all

lemma sorted_Min_hd:
  fixes xs :: "real list"
  assumes "sorted xs" "xs \<noteq> []"
  shows "Min (set xs) = hd xs"
proof -
  obtain a as where xs: "xs = a # as" using assms(2) by (cases xs) auto
  have "\<forall>y \<in> set as. a \<le> y" using assms(1) xs by simp
  then show ?thesis unfolding xs by (intro Min_eqI) auto
qed

lemma sorted_Max_last:
  fixes xs :: "real list"
  assumes "sorted xs" "xs \<noteq> []"
  shows "Max (set xs) = last xs"
proof (intro Max_eqI)
  show "finite (set xs)" by simp
  show "last xs \<in> set xs" using assms(2) by simp
  fix y assume "y \<in> set xs"
  then obtain i where i: "i < length xs" "xs ! i = y" by (auto simp: in_set_conv_nth)
  have "xs ! i \<le> xs ! (length xs - 1)"
    using assms(1) i(1) by (intro sorted_nth_mono) simp_all
  then show "y \<le> last xs" using i(2) assms(2) by (simp add: last_conv_nth)
qed

subsection \<open>The table and its evaluation\<close>

lemma iCDF_ctor_fields:
  "icdf_N (iCDF_ctor P N k) = N"
  "fluct (iCDF_ctor P N k) = k"
  "dx_gamma (iCDF_ctor P N k) = 10 * sqrt k / real N"
  "x_gamma (iCDF_ctor P N k) = map (\<lambda>i. real i * (10 * sqrt k / real N)) [0..<N]"
  "y_gamma_cdf (iCDF_ctor P N k) = map (\<lambda>i. P k (real i * (10 * sqrt k / real N))) [0..<N]"
  by (simp_all add: iCDF_ctor_def Let_def comp_def)

lemma iCDF_ctor_sorted:
  assumes "0 < N" "0 < k" "\<forall>x y. 0 \<le> x \<and> x < y \<longrightarrow> P k x < P k y"
  shows "sorted_wrt (<) (x_gamma (iCDF_ctor P N k))"
    and "sorted_wrt (<) (y_gamma_cdf (iCDF_ctor P N k))"
proof -
  let ?dx = "10 * sqrt k / real N"
  have dx: "0 < ?dx" using assms(1,2) by simp
  have x: "real i * ?dx < real j * ?dx" if "i < j" for i j :: nat
    using that dx by (intro mult_strict_right_mono) simp_all
  have y: "P k (real i * ?dx) < P k (real j * ?dx)" if "i < j" for i j :: nat
  proof -
    have "0 \<le> real i * ?dx" using dx by (intro mult_nonneg_nonneg) simp_all
    then show ?thesis using x [OF that] assms(3) by blast
  qed
  show "sorted_wrt (<) (x_gamma (iCDF_ctor P N k))"
    unfolding iCDF_ctor_fields sorted_wrt_iff_nth_less using x by simp
  show "sorted_wrt (<) (y_gamma_cdf (iCDF_ctor P N k))"
    unfolding iCDF_ctor_fields sorted_wrt_iff_nth_less using y by simp
qed

lemma iCDF_apply_ends:
  assumes "0 < N"
  shows "iCDF_apply Q (iCDF_ctor P N k) g =
     (let t = iCDF_ctor P N k; u = 1 - Q g
      in if u < hd (y_gamma_cdf t) then hd (x_gamma t) / k
         else if u > last (y_gamma_cdf t) then last (x_gamma t) / k
         else max 0 (linear_eval (y_gamma_cdf t) (x_gamma t) u / k))"
proof -
  let ?t = "iCDF_ctor P N k"
  have ne: "x_gamma ?t \<noteq> []" "y_gamma_cdf ?t \<noteq> []"
    using assms by (simp_all add: iCDF_ctor_fields)
  have len: "length (x_gamma ?t) = N" "length (y_gamma_cdf ?t) = N"
    by (simp_all add: iCDF_ctor_fields)
  have e: "hd (x_gamma ?t) = x_gamma ?t ! 0" "hd (y_gamma_cdf ?t) = y_gamma_cdf ?t ! 0"
    "last (x_gamma ?t) = x_gamma ?t ! (N - 1)" "last (y_gamma_cdf ?t) = y_gamma_cdf ?t ! (N - 1)"
    using ne len by (simp_all add: hd_conv_nth last_conv_nth)
  show ?thesis
    unfolding Let_def e by (simp add: iCDF_apply_def Let_def iCDF_ctor_fields(1,2) max_def)
qed

lemma clamp_interp_mono:
  fixes k :: real
  assumes len: "length cs = length qs" "2 \<le> length cs"
    and cs: "sorted_wrt (<) cs" and qs: "sorted qs" and q0: "0 \<le> hd qs" and k: "0 < k"
    and u: "u \<le> u'"
  defines "F \<equiv> \<lambda>u. if u < hd cs then hd qs / k
         else if u > last cs then last qs / k
         else max 0 (linear_eval cs qs u / k)"
  shows "F u \<le> F u'" and "0 \<le> F u"
proof -
  have ne: "cs \<noteq> []" "qs \<noteq> []" using len by auto
  have hl: "hd cs \<le> last cs"
    using strict_sorted_imp_sorted [OF cs] ne
    by (metis hd_conv_nth last_conv_nth sorted_nth_mono le0 diff_less length_greater_0_conv zero_less_one)
  have ql: "hd qs \<le> last qs"
    using qs ne
    by (metis hd_conv_nth last_conv_nth sorted_nth_mono le0 diff_less length_greater_0_conv zero_less_one)
  have nn: "0 \<le> F v" for v
    using q0 ql k by (simp add: F_def)
  have up: "linear_eval cs qs v / k \<le> last qs / k" if "v \<le> last cs" for v
    using linear_eval_le_last [OF len(1) cs qs len(2) that] k by (simp add: divide_right_mono)
  have mid: "linear_eval cs qs v / k \<le> linear_eval cs qs v' / k" if "v \<le> v'" for v v'
    using linear_eval_mono [OF len(1) cs qs len(2) that] k by (simp add: divide_right_mono)
  show "0 \<le> F u" by (rule nn)
  show "F u \<le> F u'"
  proof (cases "u < hd cs")
    case True
    have "F u = hd qs / k" using True by (simp add: F_def)
    also have "\<dots> \<le> F u'"
    proof (cases "u' < hd cs")
      case True
      then show ?thesis by (simp add: F_def)
    next
      case a: False
      show ?thesis
      proof (cases "u' > last cs")
        case True
        then show ?thesis using a ql k by (simp add: F_def divide_right_mono)
      next
        case False
        have "hd qs \<le> linear_eval cs qs u'"
          using linear_eval_ge_hd [OF len(1) cs qs len(2), of u'] a by simp
        then have "hd qs / k \<le> linear_eval cs qs u' / k"
          using k by (simp add: divide_right_mono)
        then show ?thesis using a False by (simp add: F_def)
      qed
    qed
    finally show ?thesis .
  next
    case lo: False
    then have lo': "\<not> u' < hd cs" using u by simp
    show ?thesis
    proof (cases "u > last cs")
      case True
      then have "u' > last cs" using u by simp
      then show ?thesis using True lo lo' by (simp add: F_def)
    next
      case m: False
      show ?thesis
      proof (cases "u' > last cs")
        case True
        have "linear_eval cs qs u / k \<le> last qs / k" using m by (intro up) simp
        moreover have "0 \<le> last qs / k" using q0 ql k by simp
        ultimately show ?thesis using True lo lo' m by (simp add: F_def)
      next
        case False
        have "linear_eval cs qs u / k \<le> linear_eval cs qs u' / k" using u by (rule mid)
        then show ?thesis using False lo lo' m by (simp add: F_def max_def)
      qed
    qed
  qed
qed

text \<open>
  C5. The evaluation of the inverse CDF is monotone and non-negative: for \<open>g1 < g2\<close> the
  value at \<open>g1\<close> is at most the value at \<open>g2\<close>, and every value is at least 0. It is a total
  function of its argument, and over the reals every value is finite. This holds for a table
  of at least two points and a positive shape \<open>k\<close>, with the two library functions taken at
  their contracts: the upper tail \<^verbatim>\<open>gsl_sf_erf_Q\<close> does not increase, and the regularized
  incomplete gamma function \<^verbatim>\<open>gsl_sf_gamma_inc_P(k, .)\<close> increases strictly on the
  non-negative reals (which is what \<^verbatim>\<open>gsl_spline_init\<close> asks of its abscissae).
\<close>

theorem iCDF_apply_mono_nonneg:
  assumes N: "2 \<le> N" and k: "0 < k"
    and Q: "\<forall>a b. a \<le> b \<longrightarrow> Q b \<le> Q a"
    and P: "\<forall>x y. 0 \<le> x \<and> x < y \<longrightarrow> P k x < P k y"
  shows "(g1 < g2 \<longrightarrow> iCDF_apply Q (iCDF_ctor P N k) g1 \<le> iCDF_apply Q (iCDF_ctor P N k) g2) \<and>
         0 \<le> iCDF_apply Q (iCDF_ctor P N k) g"
proof -
  let ?t = "iCDF_ctor P N k"
  have N0: "0 < N" using N by simp
  have len: "length (y_gamma_cdf ?t) = length (x_gamma ?t)" "2 \<le> length (y_gamma_cdf ?t)"
    using N by (simp_all add: iCDF_ctor_fields)
  have cs: "sorted_wrt (<) (y_gamma_cdf ?t)"
    using N0 k P by (rule iCDF_ctor_sorted(2))
  have "sorted_wrt (<) (x_gamma ?t)"
    using N0 k P by (rule iCDF_ctor_sorted(1))
  then have qs: "sorted (x_gamma ?t)"
    by (rule strict_sorted_imp_sorted)
  have q0: "0 \<le> hd (x_gamma ?t)"
    using N0 by (simp add: iCDF_ctor_fields hd_map hd_upt)
  have m: "iCDF_apply Q ?t g1 \<le> iCDF_apply Q ?t g2" if "g1 < g2"
  proof -
    have "Q g2 \<le> Q g1" using Q that by simp
    then have u: "1 - Q g1 \<le> 1 - Q g2" by simp
    show ?thesis
      unfolding iCDF_apply_ends [OF N0] Let_def
      by (rule clamp_interp_mono(1) [OF len cs qs q0 k u])
  qed
  have n: "0 \<le> iCDF_apply Q ?t g"
    unfolding iCDF_apply_ends [OF N0] Let_def
    by (rule clamp_interp_mono(2) [OF len cs qs q0 k order_refl])
  show ?thesis using m n by blast
qed

theorem iCDF_apply_mono_nonneg_witness:
  "iCDF_apply (\<lambda>g. 1 / (1 + exp g)) (iCDF_ctor (\<lambda>k x. 1 - exp (- x)) 2 1) 0
     \<le> iCDF_apply (\<lambda>g. 1 / (1 + exp g)) (iCDF_ctor (\<lambda>k x. 1 - exp (- x)) 2 1) 1 \<and>
   0 \<le> iCDF_apply (\<lambda>g. 1 / (1 + exp g)) (iCDF_ctor (\<lambda>k x. 1 - exp (- x)) 2 1) 0"
proof -
  have N: "(2::nat) \<le> 2" and k: "(0::real) < 1" by simp_all
  have Q: "\<forall>a b::real. a \<le> b \<longrightarrow> 1 / (1 + exp b) \<le> 1 / (1 + exp a)"
  proof (intro allI impI)
    fix a b :: real
    assume "a \<le> b"
    then have "1 + exp a \<le> 1 + exp b" by simp
    moreover have "0 < 1 + exp a" by (simp add: add_pos_pos)
    ultimately show "1 / (1 + exp b) \<le> 1 / (1 + exp a)"
      by (intro divide_left_mono mult_pos_pos) (simp_all add: add_pos_pos)
  qed
  have P: "\<forall>x y::real. 0 \<le> x \<and> x < y \<longrightarrow> 1 - exp (- x) < 1 - exp (- y)"
    by simp
  show ?thesis
    using iCDF_apply_mono_nonneg [of 2 1 "\<lambda>g. 1 / (1 + exp g)" "\<lambda>k x. 1 - exp (- x)" 0 1 0, OF N k Q P]
    by simp
qed

text \<open>
  C6. The constructor tabulates \<open>N\<close> quantiles \<open>i * dx\<close>, \<open>i = 0, \<dots>, N - 1\<close>, with the even
  spacing \<open>dx = 10 * sqrt k / N\<close>; they start at 0, lie in \<open>[0, 10 * sqrt k]\<close> (the last one
  is \<open>10 * sqrt k - dx\<close>), and come with the values \<open>P(k, x)\<close> of the regularized incomplete
  gamma function. Both columns of the table increase. At evaluation, with \<open>u = 1 - Q(g)\<close>,
  an input with \<open>u\<close> below the smallest tabulated CDF value returns the smallest tabulated
  quantile divided by \<open>k\<close>, one with \<open>u\<close> above the largest returns the largest tabulated
  quantile divided by \<open>k\<close>, and any other input returns the linear interpolant divided by
  \<open>k\<close>, or 0 when that is negative; between two neighbouring table points the interpolant
  is the straight line through them. Same assumptions on \<open>N\<close>, \<open>k\<close> and
  \<^verbatim>\<open>gsl_sf_gamma_inc_P\<close> as for C5.
\<close>

theorem iCDF_table_lookup:
  assumes N: "2 \<le> N" and k: "0 < k"
    and P: "\<forall>x y. 0 \<le> x \<and> x < y \<longrightarrow> P k x < P k y"
  shows "let t = iCDF_ctor P N k; dx = 10 * sqrt k / real N; u = 1 - Q g
     in length (x_gamma t) = N \<and> length (y_gamma_cdf t) = N \<and>
        (\<forall>i<N. x_gamma t ! i = real i * dx \<and> 0 \<le> x_gamma t ! i \<and> x_gamma t ! i \<le> 10 * sqrt k \<and>
                y_gamma_cdf t ! i = P k (x_gamma t ! i)) \<and>
        x_gamma t ! (N - 1) = 10 * sqrt k - dx \<and>
        sorted_wrt (<) (x_gamma t) \<and> sorted_wrt (<) (y_gamma_cdf t) \<and>
        iCDF_apply Q t g =
          (if u < Min (set (y_gamma_cdf t)) then Min (set (x_gamma t)) / k
           else if u > Max (set (y_gamma_cdf t)) then Max (set (x_gamma t)) / k
           else max 0 (linear_eval (y_gamma_cdf t) (x_gamma t) u / k)) \<and>
        (\<forall>i. i + 1 < N \<and> y_gamma_cdf t ! i \<le> u \<and> u < y_gamma_cdf t ! (i + 1) \<longrightarrow>
           linear_eval (y_gamma_cdf t) (x_gamma t) u =
             x_gamma t ! i + (u - y_gamma_cdf t ! i) / (y_gamma_cdf t ! (i + 1) - y_gamma_cdf t ! i)
                * (x_gamma t ! (i + 1) - x_gamma t ! i))"
proof -
  let ?t = "iCDF_ctor P N k"
  let ?dx = "10 * sqrt k / real N"
  let ?u = "1 - Q g"
  have N0: "0 < N" using N by simp
  have lx: "length (x_gamma ?t) = N" and ly: "length (y_gamma_cdf ?t) = N"
    by (simp_all add: iCDF_ctor_fields)
  have sx: "sorted_wrt (<) (x_gamma ?t)" using N0 k P by (rule iCDF_ctor_sorted(1))
  have sy: "sorted_wrt (<) (y_gamma_cdf ?t)" using N0 k P by (rule iCDF_ctor_sorted(2))
  have ne: "x_gamma ?t \<noteq> []" "y_gamma_cdf ?t \<noteq> []" using lx ly N0 by auto
  have dx: "0 < ?dx" using N0 k by simp
  have pts: "x_gamma ?t ! i = real i * ?dx \<and> 0 \<le> x_gamma ?t ! i \<and> x_gamma ?t ! i \<le> 10 * sqrt k \<and>
                y_gamma_cdf ?t ! i = P k (x_gamma ?t ! i)" if "i < N" for i
  proof -
    have a: "x_gamma ?t ! i = real i * ?dx" "y_gamma_cdf ?t ! i = P k (real i * ?dx)"
      using that by (simp_all add: iCDF_ctor_fields)
    have b: "0 \<le> real i * ?dx" using dx by (intro mult_nonneg_nonneg) simp_all
    have "real i * ?dx \<le> real N * ?dx"
      using that dx by (intro mult_right_mono) simp_all
    also have "real N * ?dx = 10 * sqrt k" using N0 by simp
    finally have c: "real i * ?dx \<le> 10 * sqrt k" .
    show ?thesis unfolding a using b c by simp
  qed
  have ev: "iCDF_apply Q ?t g =
          (if ?u < Min (set (y_gamma_cdf ?t)) then Min (set (x_gamma ?t)) / k
           else if ?u > Max (set (y_gamma_cdf ?t)) then Max (set (x_gamma ?t)) / k
           else max 0 (linear_eval (y_gamma_cdf ?t) (x_gamma ?t) ?u / k))"
    unfolding iCDF_apply_ends [OF N0] Let_def
      sorted_Min_hd [OF strict_sorted_imp_sorted [OF sx] ne(1)]
      sorted_Min_hd [OF strict_sorted_imp_sorted [OF sy] ne(2)]
      sorted_Max_last [OF strict_sorted_imp_sorted [OF sx] ne(1)]
      sorted_Max_last [OF strict_sorted_imp_sorted [OF sy] ne(2)] ..
  have seg: "linear_eval (y_gamma_cdf ?t) (x_gamma ?t) ?u =
             x_gamma ?t ! i + (?u - y_gamma_cdf ?t ! i) / (y_gamma_cdf ?t ! (i + 1) - y_gamma_cdf ?t ! i)
                * (x_gamma ?t ! (i + 1) - x_gamma ?t ! i)"
    if "i + 1 < N \<and> y_gamma_cdf ?t ! i \<le> ?u \<and> ?u < y_gamma_cdf ?t ! (i + 1)" for i
    using that lx ly by (intro linear_eval_segment sy) simp_all
  have "x_gamma ?t ! (N - 1) = real (N - 1) * ?dx"
    using pts [of "N - 1"] N0 by simp
  also have "real (N - 1) = real N - 1" using N0 by (simp add: of_nat_diff)
  also have "(real N - 1) * ?dx = real N * ?dx - ?dx" by (simp only: left_diff_distrib mult_1)
  also have "real N * ?dx = 10 * sqrt k" using N0 by simp
  finally have lst: "x_gamma ?t ! (N - 1) = 10 * sqrt k - ?dx" .
  show ?thesis
    unfolding Let_def using lx ly pts lst sx sy ev seg by blast
qed

theorem iCDF_table_lookup_witness:
  "x_gamma (iCDF_ctor (\<lambda>k x. 1 - exp (- x)) 2 1) ! 1 = 5 \<and>
   y_gamma_cdf (iCDF_ctor (\<lambda>k x. 1 - exp (- x)) 2 1) ! 1 = 1 - exp (- 5) \<and>
   sorted_wrt (<) (y_gamma_cdf (iCDF_ctor (\<lambda>k x. 1 - exp (- x)) 2 1))"
proof -
  have N: "(2::nat) \<le> 2" and k: "(0::real) < 1" by simp_all
  have P: "\<forall>x y::real. 0 \<le> x \<and> x < y \<longrightarrow> 1 - exp (- x) < 1 - exp (- y)"
    by simp
  note t = iCDF_table_lookup [of 2 1 "\<lambda>k x. 1 - exp (- x)" "\<lambda>g. 1 / (1 + exp g)" 0,
      OF N k P, unfolded Let_def]
  note p = t [THEN conjunct2, THEN conjunct2, THEN conjunct1, rule_format, of 1]
  note s = t [THEN conjunct2, THEN conjunct2, THEN conjunct2, THEN conjunct2, THEN conjunct2, THEN conjunct1]
  have x: "x_gamma (iCDF_ctor (\<lambda>k x. 1 - exp (- x)) 2 1) ! 1 = 5"
    using p by simp
  have y: "y_gamma_cdf (iCDF_ctor (\<lambda>k x. 1 - exp (- x)) 2 1) ! 1 = 1 - exp (- 5)"
    using p unfolding x by simp
  show ?thesis using x y s by (intro conjI)
qed

section \<open>Construction of the field generator and anchor selection\<close>

lemma those_map_Some:
  "those (map f xs) = Some ys \<longleftrightarrow> (\<forall>x \<in> set xs. f x \<noteq> None) \<and> ys = map (\<lambda>x. the (f x)) xs"
proof (induction xs arbitrary: ys)
  case Nil
  show ?case by auto
next
  case (Cons x xs)
  show ?case
  proof (cases "f x")
    case None
    then show ?thesis by simp
  next
    case (Some v)
    show ?thesis
    proof (cases "those (map f xs)")
      case None
      then have "\<not> (\<forall>x \<in> set xs. f x \<noteq> None)" using Cons.IH by auto
      then show ?thesis using None Some by auto
    next
      case s: (Some vs)
      then show ?thesis using Cons.IH [of vs] Some by auto
    qed
  qed
qed

lemma TAB_entry_in_int:
  assumes "0 \<le> c" "c < 32768" "i < nat (c * 2 + 1)" "j < nat (c * 2 + 1)"
  shows "in_int ((int i - c) * (int i - c)) \<and> in_int ((int j - c) * (int j - c)) \<and>
         in_int ((int i - c) * (int i - c) + (int j - c) * (int j - c))"
proof -
  have sq: "0 \<le> z * z \<and> z * z \<le> 1073676289" if "\<bar>z\<bar> \<le> c" for z :: int
  proof -
    have "z * z = \<bar>z\<bar> * \<bar>z\<bar>" by (simp add: abs_mult_self_eq)
    also have "\<dots> \<le> c * c" using that assms(1) by (intro mult_mono) simp_all
    also have "\<dots> \<le> 32767 * 32767" using assms(1,2) by (intro mult_mono) simp_all
    finally show ?thesis by simp
  qed
  have "\<bar>int i - c\<bar> \<le> c" "\<bar>int j - c\<bar> \<le> c" using assms by linarith+
  from sq [OF this(1)] sq [OF this(2)]
  have "0 \<le> (int i - c) * (int i - c)" "(int i - c) * (int i - c) \<le> 1073676289"
    "0 \<le> (int j - c) * (int j - c)" "(int j - c) * (int j - c) \<le> 1073676289"
    by blast+
  moreover have "(2::int) ^ 31 = 2147483648" by simp
  ultimately show ?thesis
    unfolding in_int_def by linarith
qed

lemma TAB_rows_Inr:
  assumes "TAB_rows ok k c d w side rows = Inr tab"
  shows "tab = map (\<lambda>i. map (\<lambda>j. exp (- real_of_int ((int i - c) * (int i - c) + (int j - c) * (int j - c))
                                       * d / w / w) * d / (pi * w * w)) [0..<side]) rows"
  using assms
proof (induction rows arbitrary: k tab)
  case Nil
  then show ?case by simp
next
  case (Cons i rows)
  from Cons.prems obtain row rest where
    row: "those (map (TAB_entry c d w i) [0..<side]) = Some row"
    and rest: "TAB_rows ok (Suc k) c d w side rows = Inr rest"
    and tab: "tab = row # rest"
    by (auto split: if_splits option.splits sum.splits)
  have "row = map (\<lambda>j. the (TAB_entry c d w i j)) [0..<side]"
    and some: "\<forall>j \<in> set [0..<side]. TAB_entry c d w i j \<noteq> None"
    using row unfolding those_map_Some by simp_all
  then have "row = map (\<lambda>j. exp (- real_of_int ((int i - c) * (int i - c) + (int j - c) * (int j - c))
                                       * d / w / w) * d / (pi * w * w)) [0..<side]"
    by (auto simp: TAB_entry_def Let_def split: if_splits)
  then show ?case using Cons.IH [OF rest] tab by simp
qed

lemma TAB_rows_ok:
  assumes "\<forall>k. ok k" "0 \<le> c" "c < 32768" "side = nat (c * 2 + 1)" "\<forall>i \<in> set rows. i < side"
  shows "\<exists>tab. TAB_rows ok k c d w side rows = Inr tab"
  using assms(5)
proof (induction rows arbitrary: k)
  case Nil
  show ?case by simp
next
  case (Cons i rows)
  have i: "i < nat (c * 2 + 1)" using Cons.prems assms(4) by simp
  have "\<forall>j \<in> set [0..<side]. TAB_entry c d w i j \<noteq> None"
    using TAB_entry_in_int [OF assms(2,3) i] assms(4) by (simp add: TAB_entry_def Let_def)
  then obtain row where row: "those (map (TAB_entry c d w i) [0..<side]) = Some row"
    unfolding those_map_Some by blast
  obtain rest where "TAB_rows ok (Suc k) c d w side rows = Inr rest"
    using Cons.IH [of "Suc k"] Cons.prems by auto
  moreover have "ok k" using assms(1) by blast
  ultimately show ?case using row by simp
qed

lemma rft2d_ctor_fields:
  assumes "rft2d_ctor P ok n1 n2 l1 l2 v l sd w = Inr r"
  shows "N1 r = n1" "N2 r = n2" "L1 r = l1" "L2 r = l2"
    "c_int (3 * w * real_of_int n1 / l1) = Some (Ncut r)"
    "width r = w" "dxy2 r = l1 * l2 / real_of_int n1 / real_of_int n2"
    "Var_k r = sqrt (pi * 2 * l * l / real_of_int n1 / real_of_int n2 / l1 / l2)"
    "coeff_k r = - pi * pi * 2 * l * l"
    "icdf r = iCDF_ctor P 500 v"
    "0 \<le> Ncut r * 2 + 1"
    "TAB_clip r = map (\<lambda>i. map (\<lambda>j.
        exp (- real_of_int ((int i - Ncut r) * (int i - Ncut r) + (int j - Ncut r) * (int j - Ncut r))
               * dxy2 r / width r / width r) * dxy2 r / (pi * width r * width r))
        [0..<nat (Ncut r * 2 + 1)]) [0..<nat (Ncut r * 2 + 1)]"
    "l1 \<noteq> 0" "in_int (Ncut r * 2 + 1)"
proof -
  from assms obtain c tab where
    c: "c_int (3 * w * real_of_int n1 / l1) = Some c"
    and l1: "l1 \<noteq> 0" and rng: "in_int (c * 2 + 1)" and side: "\<not> c * 2 + 1 < 0"
    and tab: "TAB_rows ok 3 c (l1 * l2 / real_of_int n1 / real_of_int n2) w (nat (c * 2 + 1))
                [0..<nat (c * 2 + 1)] = Inr tab"
    and r: "r = \<lparr>N1 = n1, N2 = n2, L1 = l1, L2 = l2, Var_x = v,
                   Var_k = sqrt (pi * 2 * l * l / real_of_int n1 / real_of_int n2 / l1 / l2),
                   lx = l, coeff_k = - pi * pi * 2 * l * l,
                   dx1 = l1 / real_of_int n1, dx2 = l2 / real_of_int n2,
                   dk1 = 1 / l1, dk2 = 1 / l2,
                   icdf = iCDF_ctor P 500 v,
                   width = w, dxy2 = l1 * l2 / real_of_int n1 / real_of_int n2,
                   dxy = l1 / real_of_int n1,
                   Ncut = c, seed = sd, TAB_clip = tab\<rparr>"
    unfolding rft2d_ctor_def Let_def
    by (auto split: if_splits option.splits sum.splits)
  note T = TAB_rows_Inr [OF tab]
  show "N1 r = n1" "N2 r = n2" "L1 r = l1" "L2 r = l2" "width r = w"
    "dxy2 r = l1 * l2 / real_of_int n1 / real_of_int n2"
    "Var_k r = sqrt (pi * 2 * l * l / real_of_int n1 / real_of_int n2 / l1 / l2)"
    "coeff_k r = - pi * pi * 2 * l * l" "icdf r = iCDF_ctor P 500 v"
    by (simp_all add: r)
  show "c_int (3 * w * real_of_int n1 / l1) = Some (Ncut r)" using c by (simp add: r)
  show "0 \<le> Ncut r * 2 + 1" using side by (simp add: r)
  show "l1 \<noteq> 0" by (rule l1)
  show "in_int (Ncut r * 2 + 1)" using rng by (simp add: r)
  show "TAB_clip r = map (\<lambda>i. map (\<lambda>j.
        exp (- real_of_int ((int i - Ncut r) * (int i - Ncut r) + (int j - Ncut r) * (int j - Ncut r))
               * dxy2 r / width r / width r) * dxy2 r / (pi * width r * width r))
        [0..<nat (Ncut r * 2 + 1)]) [0..<nat (Ncut r * 2 + 1)]"
    using T by (simp add: r)
qed

lemma rft2d_ctor_Inr:
  assumes "\<forall>k. ok k" "l1 \<noteq> 0" "c_int (3 * w * real_of_int n1 / l1) = Some c" "0 \<le> c" "c < 32768"
  shows "\<exists>r. rft2d_ctor P ok n1 n2 l1 l2 v l sd w = Inr r"
proof -
  have rng: "in_int (c * 2)" "in_int (c * 2 + 1)" "\<not> c * 2 + 1 < 0"
    using assms(4,5) by (simp_all add: in_int_def)
  have "\<exists>tab. TAB_rows ok 3 c (l1 * l2 / real_of_int n1 / real_of_int n2) w (nat (c * 2 + 1))
                [0..<nat (c * 2 + 1)] = Inr tab"
    by (rule TAB_rows_ok [OF assms(1,4,5) refl]) simp
  then obtain tab where "TAB_rows ok 3 c (l1 * l2 / real_of_int n1 / real_of_int n2) w (nat (c * 2 + 1))
                [0..<nat (c * 2 + 1)] = Inr tab" ..
  moreover have "ok 0" "ok 1" "ok 2" using assms(1) by blast+
  ultimately show ?thesis
    using assms(2,3) rng by (simp add: rft2d_ctor_def Let_def)
qed

lemma rft2d_ctor_Inl:
  assumes "ok 0" "ok 1" "l1 \<noteq> 0" "c_int (3 * w * real_of_int n1 / l1) = Some c"
    and "in_int (c * 2 + 1)" "c * 2 + 1 < 0"
  shows "rft2d_ctor P ok n1 n2 l1 l2 v l sd w = Inl bad_array_new_length"
proof -
  have "in_int (c * 2)" using assms(5,6) by (simp add: in_int_def)
  then show ?thesis using assms by (simp add: rft2d_ctor_def Let_def)
qed

lemma c_int_small:
  "c_int 15 = Some 15" "c_int (- 15) = Some (- 15)" "c_int 3 = Some 3" "c_int 0 = Some 0"
  "c_int (3 / 10) = Some 0" "c_int (- (3 / 10)) = Some 0" "c_int (3 / 2) = Some 1"
  by (simp_all add: c_int_def in_int_def)

lemma rft2d_ctor_builds:
  assumes "c_int (3 * w * real_of_int n1 / l1) = Some c" "l1 \<noteq> 0" "0 \<le> c" "c < 32768"
  shows "\<exists>r. rft2d_ctor P (\<lambda>k. True) n1 n2 l1 l2 v l sd w = Inr r \<and> Ncut r = c"
proof -
  have "\<forall>k::nat. (\<lambda>k. True) k" by simp
  from rft2d_ctor_Inr [OF this assms(2,1,3,4)]
  obtain r where r: "rft2d_ctor P (\<lambda>k. True) n1 n2 l1 l2 v l sd w = Inr r" by blast
  have "Ncut r = c" using rft2d_ctor_fields(5) [OF r] assms(1) by simp
  with r show ?thesis by blast
qed

lemma set_position_anchors:
  "fi (fst (set_position x y (n, g))) = int (rng_raw g (rng_pos g) mod 1950 + 25)"
  "fj (fst (set_position x y (n, g))) = int (rng_raw g (Suc (rng_pos g)) mod 1950 + 25)"
  "snd (set_position x y (n, g)) = g\<lparr>rng_pos := rng_pos g + 2\<rparr>"
  "nx (fst (set_position x y (n, g))) = x"
  "ny (fst (set_position x y (n, g))) = y"
  "participant (fst (set_position x y (n, g))) = False"
  by (simp_all add: set_position_def engine_def Let_def)

text \<open>
  C3, as stated, fails: \<^verbatim>\<open>set_position\<close> draws both anchors from the fixed range
  \<open>25..1974\<close> and never looks at the grid, so on a 100 by 100 grid with \<^verbatim>\<open>Ncut = 15\<close> the raw
  engine output 1000 gives the anchor 1025, outside the grid.
\<close>

theorem set_position_anchor_counterexample:
  "\<not> anchor_in_grid (projr (rft2d_ctor (\<lambda>k x. 1 - exp (- x)) (\<lambda>k. True) 100 100 10 10 1 1 0 (1/2)))
       (fst (set_position 0 0 (\<lparr>nx = 0, ny = 0, fi = 0, fj = 0, participant = False\<rparr>,
                               \<lparr>rng_pos = 0, rng_raw = (\<lambda>n. 1000), rng_unit = (\<lambda>n. 0)\<rparr>)))"
proof -
  have "c_int (3 * (1/2) * real_of_int 100 / 10) = Some 15"
    by (simp add: c_int_def in_int_def)
  then have "\<exists>r. rft2d_ctor (\<lambda>k x. 1 - exp (- x)) (\<lambda>k. True) 100 100 10 10 1 1 0 (1/2) = Inr r
      \<and> Ncut r = 15"
    by (rule rft2d_ctor_builds) simp_all
  then obtain r where r: "rft2d_ctor (\<lambda>k x. 1 - exp (- x)) (\<lambda>k. True) 100 100 10 10 1 1 0 (1/2) = Inr r"
    and "Ncut r = 15" by blast
  then have "Ncut r = 15" "N1 r = 100"
    using rft2d_ctor_fields(1) [OF r] by simp_all
  then show ?thesis
    by (simp add: r anchor_in_grid_def set_position_anchors)
qed

text \<open>
  C3, amended. With \<^verbatim>\<open>Ncut = int(3*width*N1/L1)\<close> as the constructor computes it, every anchor
  that \<^verbatim>\<open>set_position\<close> assigns lies in \<open>25..1974\<close>, whatever the grid; the four bounds
  \<open>fi - Ncut \<ge> 0\<close>, \<open>fi + Ncut \<le> N1 - 1\<close>, \<open>fj - Ncut \<ge> 0\<close>, \<open>fj + Ncut \<le> N2 - 1\<close> hold for every
  engine output exactly when \<open>Ncut \<le> 25\<close>, \<open>N1 \<ge> 1975 + Ncut\<close> and \<open>N2 \<ge> 1975 + Ncut\<close>.
\<close>

theorem set_position_anchor_range:
  assumes "rft2d_ctor P ok n1 n2 l1 l2 v l sd w = Inr r"
  shows "c_int (3 * w * real_of_int n1 / l1) = Some (Ncut r) \<and>
         (let n' = fst (set_position x y (n, g))
          in 25 \<le> fi n' \<and> fi n' \<le> 1974 \<and> 25 \<le> fj n' \<and> fj n' \<le> 1974) \<and>
         ((\<forall>g. anchor_in_grid r (fst (set_position x y (n, g)))) \<longleftrightarrow>
          Ncut r \<le> 25 \<and> 1975 + Ncut r \<le> n1 \<and> 1975 + Ncut r \<le> n2)"
proof -
  have a: "25 \<le> fi (fst (set_position x y (n, g'))) \<and> fi (fst (set_position x y (n, g'))) \<le> 1974
         \<and> 25 \<le> fj (fst (set_position x y (n, g'))) \<and> fj (fst (set_position x y (n, g'))) \<le> 1974" for g'
  proof -
    have "rng_raw g' (rng_pos g') mod 1950 < 1950" "rng_raw g' (Suc (rng_pos g')) mod 1950 < 1950"
      by simp_all
    then show ?thesis unfolding set_position_anchors by linarith
  qed
  have N: "N1 r = n1" "N2 r = n2" using rft2d_ctor_fields(1,2) [OF assms] by simp_all
  have fwd: "Ncut r \<le> 25 \<and> 1975 + Ncut r \<le> n1 \<and> 1975 + Ncut r \<le> n2"
    if all: "\<forall>g. anchor_in_grid r (fst (set_position x y (n, g)))"
  proof -
    let ?lo = "\<lparr>rng_pos = 0, rng_raw = (\<lambda>k. 0), rng_unit = (\<lambda>k. 0)\<rparr>"
    let ?hi = "\<lparr>rng_pos = 0, rng_raw = (\<lambda>k. 1949), rng_unit = (\<lambda>k. 0)\<rparr>"
    have "anchor_in_grid r (fst (set_position x y (n, ?lo)))" using all by blast
    then have lo: "Ncut r \<le> 25" by (simp add: anchor_in_grid_def set_position_anchors)
    have "anchor_in_grid r (fst (set_position x y (n, ?hi)))" using all by blast
    then have "1974 + Ncut r \<le> n1 - 1 \<and> 1974 + Ncut r \<le> n2 - 1"
      by (simp add: anchor_in_grid_def set_position_anchors N)
    with lo show ?thesis by linarith
  qed
  have bwd: "anchor_in_grid r (fst (set_position x y (n, g')))"
    if "Ncut r \<le> 25 \<and> 1975 + Ncut r \<le> n1 \<and> 1975 + Ncut r \<le> n2" for g'
    using that a [of g'] unfolding anchor_in_grid_def N by linarith
  have c1: "c_int (3 * w * real_of_int n1 / l1) = Some (Ncut r)"
    by (rule rft2d_ctor_fields(5) [OF assms])
  have c2: "let n' = fst (set_position x y (n, g))
          in 25 \<le> fi n' \<and> fi n' \<le> 1974 \<and> 25 \<le> fj n' \<and> fj n' \<le> 1974"
    unfolding Let_def by (rule a)
  have c3: "(\<forall>g. anchor_in_grid r (fst (set_position x y (n, g)))) \<longleftrightarrow>
          Ncut r \<le> 25 \<and> 1975 + Ncut r \<le> n1 \<and> 1975 + Ncut r \<le> n2"
    using fwd bwd by blast
  show ?thesis using c1 c2 c3 by (intro conjI)
qed

theorem set_position_anchor_range_witness:
  "anchor_in_grid (projr (rft2d_ctor (\<lambda>k x. 1 - exp (- x)) (\<lambda>k. True) 2000 2000 20 20 1 1 0 (1/20)))
       (fst (set_position 0 0 (\<lparr>nx = 0, ny = 0, fi = 0, fj = 0, participant = False\<rparr>,
                               \<lparr>rng_pos = 0, rng_raw = (\<lambda>n. 1000), rng_unit = (\<lambda>n. 0)\<rparr>)))"
proof -
  let ?n = "\<lparr>nx = 0, ny = 0, fi = 0, fj = 0, participant = False\<rparr>"
  have "c_int (3 * (1/20) * real_of_int 2000 / 20) = Some 15"
    by (simp add: c_int_def in_int_def)
  then have "\<exists>r. rft2d_ctor (\<lambda>k x. 1 - exp (- x)) (\<lambda>k. True) 2000 2000 20 20 1 1 0 (1/20) = Inr r
      \<and> Ncut r = 15"
    by (rule rft2d_ctor_builds) simp_all
  then obtain r where r: "rft2d_ctor (\<lambda>k x. 1 - exp (- x)) (\<lambda>k. True) 2000 2000 20 20 1 1 0 (1/20) = Inr r"
    by blast
  note t = set_position_anchor_range [OF r, of 0 0 ?n]
  have c: "Ncut r = 15"
    using t [THEN conjunct1] by (simp add: c_int_def in_int_def)
  have "\<forall>g. anchor_in_grid r (fst (set_position 0 0 (?n, g)))"
    unfolding t [THEN conjunct2, THEN conjunct2] c by simp
  then have "anchor_in_grid r (fst (set_position 0 0 (?n,
      \<lparr>rng_pos = 0, rng_raw = (\<lambda>n. 1000), rng_unit = (\<lambda>n. 0)\<rparr>)))"
    by (rule spec)
  then show ?thesis
    unfolding r sum.sel .
qed

section \<open>Addressing of the spectral workspace\<close>

subsection \<open>The loop order and the loop bodies\<close>

lemma grid_rows:
  "concat (map (\<lambda>i. map (\<lambda>j. (i, j)) [0..<m]) [0..<k]) = map (\<lambda>c. (c div m, c mod m)) [0..<k * m]"
proof (induction k)
  case 0
  show ?case by simp
next
  case (Suc k)
  have "map (\<lambda>c. (c div m, c mod m)) [k * m..<k * m + m]
      = map (\<lambda>c. (c div m, c mod m)) (map (\<lambda>j. j + k * m) [0..<m])"
    unfolding map_add_upt by (simp only: add.commute)
  also have "\<dots> = map (\<lambda>j. (k, j)) [0..<m]"
    by (simp add: comp_def)
  finally have row: "map (\<lambda>j. (k, j)) [0..<m] = map (\<lambda>c. (c div m, c mod m)) [k * m..<k * m + m]"
    by simp
  have "[0..<Suc k * m] = [0..<k * m] @ [k * m..<k * m + m]"
    using upt_add_eq_append [OF le0, of "k * m" m] by (simp add: add.commute)
  then show ?case
    using Suc row by simp
qed

lemma grid_loop_row_major:
  "grid_loop n1 n2 = map (\<lambda>c. (c div nat n2, c mod nat n2)) [0..<nat n1 * nat n2]"
  by (simp add: grid_loop_def grid_rows)

lemma set_grid_loop: "set (grid_loop n1 n2) = {(i, j). i < nat n1 \<and> j < nat n2}"
  by (auto simp: grid_loop_def)

lemma for_cells_snoc:
  "for_cells body (cs @ [c]) w = (case for_cells body cs w of None \<Rightarrow> None | Some w' \<Rightarrow> body c w')"
  by (induction cs arbitrary: w) (auto split: option.splits)

lemma white_noise_cell_Some:
  "white_noise_cell r c w = Some w' \<longleftrightarrow>
     (\<exists>k. cell_index (N1 r) c = Some k \<and> 0 \<le> k \<and> nat k < length (phi_x w) \<and>
          w' = w\<lparr>phi_x := (phi_x w)[nat k := (noise w (noise_pos w), 0)],
                 noise_pos := Suc (noise_pos w)\<rparr>)"
  by (auto simp: white_noise_cell_def split: option.splits)

lemma propagation_cell_Some:
  "propagation_cell r c w = Some w' \<longleftrightarrow>
     (\<exists>k. cell_index (N1 r) c = Some k \<and> 0 \<le> k \<and> nat k < length (phi_k w) \<and>
          w' = w\<lparr>phi_k := (phi_k w)[nat k :=
                   (fst (phi_k w ! nat k) * ker r c, snd (phi_k w ! nat k) * ker r c)]\<rparr>)"
  by (auto simp: propagation_cell_def split: option.splits)

lemma cell_index_Some:
  "cell_index n1 (i, j) = Some k \<Longrightarrow> k = int i * n1 + int j \<and> in_int k"
  by (auto simp: cell_index_def split: if_splits)

subsection \<open>A pass that stops\<close>

lemma white_noise_stops:
  assumes "c \<in> set cs"
    and "\<forall>k. cell_index (N1 r) c = Some k \<longrightarrow> \<not> (0 \<le> k \<and> nat k < length (phi_x w))"
  shows "for_cells (white_noise_cell r) cs w = None"
  using assms
proof (induction cs arbitrary: w)
  case Nil
  then show ?case by simp
next
  case (Cons a cs)
  show ?case
  proof (cases "white_noise_cell r a w")
    case None
    then show ?thesis by simp
  next
    case (Some w1)
    then have len: "length (phi_x w1) = length (phi_x w)"
      unfolding white_noise_cell_Some by auto
    have "a \<noteq> c" using Some Cons.prems(2) unfolding white_noise_cell_Some by auto
    then have "c \<in> set cs" using Cons.prems(1) by simp
    then have "for_cells (white_noise_cell r) cs w1 = None"
      using Cons.prems(2) len by (intro Cons.IH) simp_all
    then show ?thesis using Some by simp
  qed
qed

lemma propagation_stops:
  assumes "c \<in> set cs"
    and "\<forall>k. cell_index (N1 r) c = Some k \<longrightarrow> \<not> (0 \<le> k \<and> nat k < length (phi_k w))"
  shows "for_cells (propagation_cell r) cs w = None"
  using assms
proof (induction cs arbitrary: w)
  case Nil
  then show ?case by simp
next
  case (Cons a cs)
  show ?case
  proof (cases "propagation_cell r a w")
    case None
    then show ?thesis by simp
  next
    case (Some w1)
    then have len: "length (phi_k w1) = length (phi_k w)"
      unfolding propagation_cell_Some by auto
    have "a \<noteq> c" using Some Cons.prems(2) unfolding propagation_cell_Some by auto
    then have "c \<in> set cs" using Cons.prems(1) by simp
    then have "for_cells (propagation_cell r) cs w1 = None"
      using Cons.prems(2) len by (intro Cons.IH) simp_all
    then show ?thesis using Some by simp
  qed
qed

subsection \<open>A cell that no iteration addresses\<close>

lemma white_noise_untouched:
  assumes "for_cells (white_noise_cell r) cs w = Some w'"
    and "\<forall>c \<in> set cs. cell_index (N1 r) c \<noteq> Some (int t)"
  shows "phi_x w' ! t = phi_x w ! t"
  using assms
proof (induction cs arbitrary: w)
  case Nil
  then show ?case by simp
next
  case (Cons a cs)
  from Cons.prems(1) obtain w1 where a: "white_noise_cell r a w = Some w1"
    and rest: "for_cells (white_noise_cell r) cs w1 = Some w'"
    by (auto split: option.splits)
  from a obtain k where k: "cell_index (N1 r) a = Some k" "0 \<le> k"
    and w1: "phi_x w1 = (phi_x w)[nat k := (noise w (noise_pos w), 0)]"
    unfolding white_noise_cell_Some by auto
  have "k \<noteq> int t" using k(1) Cons.prems(2) by auto
  then have "nat k \<noteq> t" using k(2) by auto
  then have "phi_x w1 ! t = phi_x w ! t" by (simp add: w1)
  moreover have "phi_x w' ! t = phi_x w1 ! t"
    using rest Cons.prems(2) by (intro Cons.IH) simp_all
  ultimately show ?case by simp
qed

lemma propagation_untouched:
  assumes "for_cells (propagation_cell r) cs w = Some w'"
    and "\<forall>c \<in> set cs. cell_index (N1 r) c \<noteq> Some (int t)"
  shows "phi_k w' ! t = phi_k w ! t"
  using assms
proof (induction cs arbitrary: w)
  case Nil
  then show ?case by simp
next
  case (Cons a cs)
  from Cons.prems(1) obtain w1 where a: "propagation_cell r a w = Some w1"
    and rest: "for_cells (propagation_cell r) cs w1 = Some w'"
    by (auto split: option.splits)
  from a obtain k where k: "cell_index (N1 r) a = Some k" "0 \<le> k"
    and w1: "phi_k w1 = (phi_k w)[nat k :=
               (fst (phi_k w ! nat k) * ker r a, snd (phi_k w ! nat k) * ker r a)]"
    unfolding propagation_cell_Some by auto
  have "k \<noteq> int t" using k(1) Cons.prems(2) by auto
  then have "nat k \<noteq> t" using k(2) by auto
  then have "phi_k w1 ! t = phi_k w ! t" by (simp add: w1)
  moreover have "phi_k w' ! t = phi_k w1 ! t"
    using rest Cons.prems(2) by (intro Cons.IH) simp_all
  ultimately show ?case by simp
qed

subsection \<open>A pass that meets the cells in order\<close>

lemma white_noise_prefix:
  assumes f: "\<forall>c < length (phi_x w). cell_index (N1 r) (f c) = Some (int c)"
    and j: "j \<le> length (phi_x w)"
  shows "for_cells (white_noise_cell r) (map f [0..<j]) w =
     Some (w\<lparr>phi_x := map (\<lambda>c. if c < j then (noise w (noise_pos w + c), 0) else phi_x w ! c)
                         [0..<length (phi_x w)],
             noise_pos := noise_pos w + j\<rparr>)"
  using j
proof (induction j)
  case 0
  show ?case by (simp add: map_nth)
next
  case (Suc j)
  let ?G = "\<lambda>j c. if c < j then (noise w (noise_pos w + c), 0::real) else phi_x w ! c"
  let ?L = "length (phi_x w)"
  have jl: "j < ?L" using Suc.prems by simp
  have idx: "cell_index (N1 r) (f j) = Some (int j)" using f jl by simp
  have upd: "(map (?G j) [0..<?L])[j := (noise w (noise_pos w + j), 0)] = map (?G (Suc j)) [0..<?L]"
    by (rule nth_equalityI) (auto simp: nth_list_update less_Suc_eq)
  have "for_cells (white_noise_cell r) (map f [0..<Suc j]) w
      = white_noise_cell r (f j) (w\<lparr>phi_x := map (?G j) [0..<?L], noise_pos := noise_pos w + j\<rparr>)"
    using Suc.IH jl by (simp add: for_cells_snoc)
  also have "\<dots> = Some (w\<lparr>phi_x := map (?G (Suc j)) [0..<?L], noise_pos := noise_pos w + Suc j\<rparr>)"
    using jl upd by (simp add: white_noise_cell_def idx)
  finally show ?case .
qed

lemma propagation_prefix:
  assumes f: "\<forall>c < length (phi_k w). cell_index (N1 r) (f c) = Some (int c)"
    and j: "j \<le> length (phi_k w)"
  shows "for_cells (propagation_cell r) (map f [0..<j]) w =
     Some (w\<lparr>phi_k := map (\<lambda>c. if c < j
                 then (fst (phi_k w ! c) * ker r (f c), snd (phi_k w ! c) * ker r (f c))
                 else phi_k w ! c) [0..<length (phi_k w)]\<rparr>)"
  using j
proof (induction j)
  case 0
  show ?case by (simp add: map_nth)
next
  case (Suc j)
  let ?G = "\<lambda>j c. if c < j
                 then (fst (phi_k w ! c) * ker r (f c), snd (phi_k w ! c) * ker r (f c))
                 else phi_k w ! c"
  let ?L = "length (phi_k w)"
  have jl: "j < ?L" using Suc.prems by simp
  have idx: "cell_index (N1 r) (f j) = Some (int j)" using f jl by simp
  have upd: "(map (?G j) [0..<?L])[j := (fst (phi_k w ! j) * ker r (f j), snd (phi_k w ! j) * ker r (f j))]
      = map (?G (Suc j)) [0..<?L]"
    by (rule nth_equalityI) (auto simp: nth_list_update less_Suc_eq)
  have "for_cells (propagation_cell r) (map f [0..<Suc j]) w
      = propagation_cell r (f j) (w\<lparr>phi_k := map (?G j) [0..<?L]\<rparr>)"
    using Suc.IH jl by (simp add: for_cells_snoc)
  also have "\<dots> = Some (w\<lparr>phi_k := map (?G (Suc j)) [0..<?L]\<rparr>)"
    using jl upd by (simp add: propagation_cell_def idx)
  finally show ?case .
qed

subsection \<open>Which cell an iteration addresses\<close>

lemma row_major_index:
  assumes "0 < n1" "0 < n2"
    and "(n1 = n2 \<and> n1 * n2 \<le> 2 ^ 31) \<or> (n1 = 1 \<and> in_int n2)"
    and "c < nat (n1 * n2)"
  shows "cell_index n1 (c div nat n2, c mod nat n2) = Some (int c)"
proof -
  define m where "m = nat n2"
  have m: "int m = n2" "0 < m" using assms(2) by (simp_all add: m_def)
  have p: "(2::int) ^ 31 = 2147483648" by simp
  have c: "int c < n1 * n2"
    using assms(1,2,4) by (simp add: nat_less_iff mult_pos_pos)
  have bound: "int c \<le> 2147483647"
    using assms(3) c unfolding in_int_def p by auto
  have val: "int (c div m) * n1 + int (c mod m) = int c"
  proof (cases "n1 = n2")
    case True
    have "int (c div m) * int m + int (c mod m) = int (c div m * m + c mod m)"
      by (simp only: of_nat_add of_nat_mult)
    also have "c div m * m + c mod m = c" by (rule div_mult_mod_eq)
    finally show ?thesis unfolding True m(1) .
  next
    case False
    then have one: "n1 = 1" using assms(3) by blast
    then have "c < m" using assms(4) by (simp add: m_def)
    then show ?thesis using one by simp
  qed
  have nonneg: "0 \<le> int (c div m) * n1" using assms(1) by simp
  have "int (c div m) * n1 \<le> int c" using val by linarith
  then have "in_int (int (c div m) * n1)" "in_int (int (c div m) * n1 + int (c mod m))"
    using nonneg bound val unfolding in_int_def p by linarith+
  then show ?thesis
    unfolding m_def [symmetric] by (simp add: cell_index_def val)
qed

lemma last_loop_cell:
  assumes "0 < n1" "0 < n2"
  shows "(nat n1 - 1, nat n2 - 1) \<in> set (grid_loop n1 n2)"
  using assms by (simp add: set_grid_loop)

lemma last_loop_cell_fails:
  assumes "0 < n1" "0 < n2" "n2 < n1 \<or> (n1 = n2 \<and> 2 ^ 31 < n1 * n2)"
    and "cell_index n1 (nat n1 - 1, nat n2 - 1) = Some k"
  shows "\<not> (0 \<le> k \<and> nat k < nat (n1 * n2))"
proof -
  have p: "(2::int) ^ 31 = 2147483648" by simp
  have i: "int (nat n1 - 1) = n1 - 1" "int (nat n2 - 1) = n2 - 1" using assms(1,2) by simp_all
  from cell_index_Some [OF assms(4)]
  have k: "k = (n1 - 1) * n1 + (n2 - 1)" and rng: "k \<le> 2147483647"
    unfolding i in_int_def p by simp_all
  have e: "(n1 - 1) * n1 = n1 * n1 - n1" by (simp add: algebra_simps)
  show ?thesis
  proof (cases "n2 < n1")
    case True
    then have "n2 * n1 \<le> (n1 - 1) * n1" using assms(1) by (intro mult_right_mono) simp_all
    then have "n1 * n2 \<le> k" using assms(2) unfolding k by (simp add: mult.commute)
    then show ?thesis by simp
  next
    case False
    then have sq: "n1 = n2" "2147483648 < n1 * n2" using assms(3) p by auto
    have "k = n1 * n2 - 1" unfolding k e using sq(1) by simp
    then show ?thesis using rng sq(2) by simp
  qed
qed

lemma skipped_last_cell:
  assumes "1 < n1" "n1 < n2" "c \<in> set (grid_loop n1 n2)"
  shows "cell_index n1 c \<noteq> Some (int (nat (n1 * n2) - 1))"
proof
  assume a: "cell_index n1 c = Some (int (nat (n1 * n2) - 1))"
  obtain i j where c: "c = (i, j)" by (cases c)
  have ij: "int i \<le> n1 - 1" "int j \<le> n2 - 1"
    using assms(3) unfolding c set_grid_loop by auto
  have pos: "0 < n1 * n2" using assms by (simp add: mult_pos_pos)
  then have t: "int (nat (n1 * n2) - 1) = n1 * n2 - 1" by simp
  from cell_index_Some [OF a [unfolded c]]
  have k: "n1 * n2 - 1 = int i * n1 + int j" unfolding t by simp
  have "int i * n1 \<le> (n1 - 1) * n1" using ij(1) assms(1) by (intro mult_right_mono) simp_all
  then have 1: "int i * n1 \<le> n1 * n1 - n1" by (simp add: algebra_simps)
  have "1 * 1 \<le> (n1 - 1) * (n2 - n1)" using assms by (intro mult_mono) simp_all
  then have 2: "1 \<le> n1 * n2 - n1 * n1 - n2 + n1" by (simp add: algebra_simps)
  from k 1 2 ij(2) show False by linarith
qed

subsection \<open>The two passes on a grid\<close>

lemma passes_in_order:
  assumes "0 < N1 r" "0 < N2 r"
    and "(N1 r = N2 r \<and> N1 r * N2 r \<le> 2 ^ 31) \<or> (N1 r = 1 \<and> in_int (N2 r))"
  shows "length (phi_x w) = nat (N1 r * N2 r) \<Longrightarrow>
     real_space_white_noise r w =
       Some (w\<lparr>phi_x := map (\<lambda>c. (noise w (noise_pos w + c), 0)) [0..<nat (N1 r * N2 r)],
               noise_pos := noise_pos w + nat (N1 r * N2 r)\<rparr>)"
    and "length (phi_k w) = nat (N1 r * N2 r) \<Longrightarrow>
     apply_k_spcae_propagation r w =
       Some (w\<lparr>phi_k := map (\<lambda>c. (fst (phi_k w ! c) * ker r (c div nat (N2 r), c mod nat (N2 r)),
                                    snd (phi_k w ! c) * ker r (c div nat (N2 r), c mod nat (N2 r))))
                           [0..<nat (N1 r * N2 r)]\<rparr>)"
proof -
  have n: "nat (N1 r) * nat (N2 r) = nat (N1 r * N2 r)"
    using assms(1) by (simp add: nat_mult_distrib)
  have idx: "\<forall>c < nat (N1 r * N2 r).
      cell_index (N1 r) (c div nat (N2 r), c mod nat (N2 r)) = Some (int c)"
    using row_major_index [OF assms] by blast
  {
    assume len: "length (phi_x w) = nat (N1 r * N2 r)"
    have "real_space_white_noise r w =
        for_cells (white_noise_cell r)
          (map (\<lambda>c. (c div nat (N2 r), c mod nat (N2 r))) [0..<length (phi_x w)]) w"
      by (simp add: real_space_white_noise_def grid_loop_row_major n len)
    also note white_noise_prefix [OF idx [folded len] order_refl]
    finally show "real_space_white_noise r w =
       Some (w\<lparr>phi_x := map (\<lambda>c. (noise w (noise_pos w + c), 0)) [0..<nat (N1 r * N2 r)],
               noise_pos := noise_pos w + nat (N1 r * N2 r)\<rparr>)"
      by (simp add: len cong: map_cong)
  }
  {
    assume len: "length (phi_k w) = nat (N1 r * N2 r)"
    have "apply_k_spcae_propagation r w =
        for_cells (propagation_cell r)
          (map (\<lambda>c. (c div nat (N2 r), c mod nat (N2 r))) [0..<length (phi_k w)]) w"
      by (simp add: apply_k_spcae_propagation_def grid_loop_row_major n len)
    also note propagation_prefix [OF idx [folded len] order_refl]
    finally show "apply_k_spcae_propagation r w =
       Some (w\<lparr>phi_k := map (\<lambda>c. (fst (phi_k w ! c) * ker r (c div nat (N2 r), c mod nat (N2 r)),
                                    snd (phi_k w ! c) * ker r (c div nat (N2 r), c mod nat (N2 r))))
                           [0..<nat (N1 r * N2 r)]\<rparr>)"
      by (simp add: len cong: map_cong)
  }
qed

lemma passes_stop:
  assumes "0 < N1 r" "0 < N2 r"
    and "N2 r < N1 r \<or> (N1 r = N2 r \<and> 2 ^ 31 < N1 r * N2 r)"
  shows "length (phi_x w) = nat (N1 r * N2 r) \<Longrightarrow> real_space_white_noise r w = None"
    and "length (phi_k w) = nat (N1 r * N2 r) \<Longrightarrow> apply_k_spcae_propagation r w = None"
proof -
  note last = last_loop_cell [OF assms(1,2)]
  note fails = last_loop_cell_fails [OF assms]
  show "real_space_white_noise r w = None" if "length (phi_x w) = nat (N1 r * N2 r)"
    unfolding real_space_white_noise_def
    using fails that by (intro white_noise_stops [OF last]) auto
  show "apply_k_spcae_propagation r w = None" if "length (phi_k w) = nat (N1 r * N2 r)"
    unfolding apply_k_spcae_propagation_def
    using fails that by (intro propagation_stops [OF last]) auto
qed

lemma passes_skip:
  assumes "1 < N1 r" "N1 r < N2 r"
  shows "real_space_white_noise r w = Some w' \<Longrightarrow>
           phi_x w' ! (nat (N1 r * N2 r) - 1) = phi_x w ! (nat (N1 r * N2 r) - 1)"
    and "apply_k_spcae_propagation r w = Some w' \<Longrightarrow>
           phi_k w' ! (nat (N1 r * N2 r) - 1) = phi_k w ! (nat (N1 r * N2 r) - 1)"
proof -
  have skip: "\<forall>c \<in> set (grid_loop (N1 r) (N2 r)).
      cell_index (N1 r) c \<noteq> Some (int (nat (N1 r * N2 r) - 1))"
    using skipped_last_cell [OF assms] by blast
  show "phi_x w' ! (nat (N1 r * N2 r) - 1) = phi_x w ! (nat (N1 r * N2 r) - 1)"
    if "real_space_white_noise r w = Some w'"
    using that skip unfolding real_space_white_noise_def by (rule white_noise_untouched)
  show "phi_k w' ! (nat (N1 r * N2 r) - 1) = phi_k w ! (nat (N1 r * N2 r) - 1)"
    if "apply_k_spcae_propagation r w = Some w'"
    using that skip unfolding apply_k_spcae_propagation_def by (rule propagation_untouched)
qed

subsection \<open>A pass that runs to its end\<close>

lemma white_noise_runs:
  assumes "\<forall>c \<in> set cs. \<exists>k. cell_index (N1 r) c = Some k \<and> 0 \<le> k \<and> nat k < length (phi_x w)"
  shows "\<exists>w'. for_cells (white_noise_cell r) cs w = Some w'"
  using assms
proof (induction cs arbitrary: w)
  case Nil
  show ?case by simp
next
  case (Cons c cs)
  from Cons.prems obtain k where k: "cell_index (N1 r) c = Some k" "0 \<le> k" "nat k < length (phi_x w)"
    by auto
  define w1 where "w1 = w\<lparr>phi_x := (phi_x w)[nat k := (noise w (noise_pos w), 0)],
                           noise_pos := Suc (noise_pos w)\<rparr>"
  have step: "white_noise_cell r c w = Some w1"
    unfolding white_noise_cell_Some w1_def using k by blast
  have "length (phi_x w1) = length (phi_x w)" by (simp add: w1_def)
  then have "\<forall>c \<in> set cs. \<exists>k. cell_index (N1 r) c = Some k \<and> 0 \<le> k \<and> nat k < length (phi_x w1)"
    using Cons.prems by simp
  from Cons.IH [OF this] show ?case by (simp add: step)
qed

lemma propagation_runs:
  assumes "\<forall>c \<in> set cs. \<exists>k. cell_index (N1 r) c = Some k \<and> 0 \<le> k \<and> nat k < length (phi_k w)"
  shows "\<exists>w'. for_cells (propagation_cell r) cs w = Some w'"
  using assms
proof (induction cs arbitrary: w)
  case Nil
  show ?case by simp
next
  case (Cons c cs)
  from Cons.prems obtain k where k: "cell_index (N1 r) c = Some k" "0 \<le> k" "nat k < length (phi_k w)"
    by auto
  define w1 where "w1 = w\<lparr>phi_k := (phi_k w)[nat k :=
                     (fst (phi_k w ! nat k) * ker r c, snd (phi_k w ! nat k) * ker r c)]\<rparr>"
  have step: "propagation_cell r c w = Some w1"
    unfolding propagation_cell_Some w1_def using k by blast
  have "length (phi_k w1) = length (phi_k w)" by (simp add: w1_def)
  then have "\<forall>c \<in> set cs. \<exists>k. cell_index (N1 r) c = Some k \<and> 0 \<le> k \<and> nat k < length (phi_k w1)"
    using Cons.prems by simp
  from Cons.IH [OF this] show ?case by (simp add: step)
qed

lemma wide_index_in_bounds:
  assumes "0 < n1" "n1 \<le> n2" "n1 * n2 \<le> 2 ^ 31" "c \<in> set (grid_loop n1 n2)"
  shows "\<exists>k. cell_index n1 c = Some k \<and> 0 \<le> k \<and> nat k < nat (n1 * n2)"
proof -
  have p: "(2::int) ^ 31 = 2147483648" by simp
  obtain i j where c: "c = (i, j)" by (cases c)
  have ij: "int i \<le> n1 - 1" "int j \<le> n2 - 1"
    using assms(4) unfolding c set_grid_loop by auto
  have "int i * n1 \<le> (n1 - 1) * n1" using ij(1) assms(1) by (intro mult_right_mono) simp_all
  then have 1: "int i * n1 \<le> n1 * n1 - n1" by (simp add: algebra_simps)
  have "(n1 - 1) * n1 \<le> (n1 - 1) * n2" using assms(1,2) by (intro mult_left_mono) simp_all
  then have 2: "n1 * n1 - n1 \<le> n1 * n2 - n2" by (simp add: algebra_simps)
  have 0: "0 \<le> int i * n1" using assms(1) by simp
  have lt: "int i * n1 + int j < n1 * n2" using 1 2 ij(2) by linarith
  have "in_int (int i * n1)" "in_int (int i * n1 + int j)"
    using 0 lt assms(3) unfolding in_int_def p by linarith+
  then have "cell_index n1 c = Some (int i * n1 + int j)"
    by (simp add: cell_index_def c)
  moreover have "nat (int i * n1 + int j) < nat (n1 * n2)" using lt 0 by linarith
  ultimately show ?thesis using 0 by simp
qed

lemma passes_run_wide:
  assumes "0 < N1 r" "N1 r \<le> N2 r" "N1 r * N2 r \<le> 2 ^ 31"
  shows "length (phi_x w) = nat (N1 r * N2 r) \<Longrightarrow> \<exists>w'. real_space_white_noise r w = Some w'"
    and "length (phi_k w) = nat (N1 r * N2 r) \<Longrightarrow> \<exists>w'. apply_k_spcae_propagation r w = Some w'"
proof -
  note idx = wide_index_in_bounds [OF assms]
  show "\<exists>w'. real_space_white_noise r w = Some w'" if "length (phi_x w) = nat (N1 r * N2 r)"
    unfolding real_space_white_noise_def using idx that by (intro white_noise_runs) simp
  show "\<exists>w'. apply_k_spcae_propagation r w = Some w'" if "length (phi_k w) = nat (N1 r * N2 r)"
    unfolding apply_k_spcae_propagation_def using idx that by (intro propagation_runs) simp
qed

subsection \<open>Which grids are written cell by cell\<close>

text \<open>
  C10, as stated, fails in its last part: there are grids with \<open>N1 \<noteq> N2\<close> on which every
  access is in bounds and every cell is written exactly once. On the 1 by 2 grid the
  white-noise fill puts the first draw into cell 0 and the second into cell 1, and the
  filter multiplies cell 0 by the factor of \<open>(0, 0)\<close> and cell 1 by the factor of \<open>(0, 1)\<close>.
\<close>

theorem passes_row_grid_counterexample:
  "\<exists>r. rft2d_ctor (\<lambda>k x. 1 - exp (- x)) (\<lambda>k. True) 1 2 1 2 1 1 0 1 = Inr r \<and> N1 r \<noteq> N2 r \<and>
     real_space_white_noise r
       \<lparr>phi_x = [(7, 7), (7, 7)], phi_k = [(1, 2), (3, 4)], noise_pos = 0, noise = (\<lambda>n. real n + 1)\<rparr>
     = Some \<lparr>phi_x = [(1, 0), (2, 0)], phi_k = [(1, 2), (3, 4)], noise_pos = 2,
             noise = (\<lambda>n. real n + 1)\<rparr> \<and>
     apply_k_spcae_propagation r
       \<lparr>phi_x = [(7, 7), (7, 7)], phi_k = [(1, 2), (3, 4)], noise_pos = 0, noise = (\<lambda>n. real n + 1)\<rparr>
     = Some \<lparr>phi_x = [(7, 7), (7, 7)],
             phi_k = [(1 * ker r (0, 0), 2 * ker r (0, 0)), (3 * ker r (0, 1), 4 * ker r (0, 1))],
             noise_pos = 0, noise = (\<lambda>n. real n + 1)\<rparr>"
proof -
  have "c_int (3 * 1 * real_of_int 1 / 1) = Some 3"
    by (simp add: c_int_def in_int_def)
  then have "\<exists>r. rft2d_ctor (\<lambda>k x. 1 - exp (- x)) (\<lambda>k. True) 1 2 1 2 1 1 0 1 = Inr r \<and> Ncut r = 3"
    by (rule rft2d_ctor_builds) simp_all
  then obtain r where r: "rft2d_ctor (\<lambda>k x. 1 - exp (- x)) (\<lambda>k. True) 1 2 1 2 1 1 0 1 = Inr r"
    by blast
  have n: "N1 r = 1" "N2 r = 2"
    using rft2d_ctor_fields(1,2) [OF r] by simp_all
  have pos: "0 < N1 r" "0 < N2 r"
    and shape: "(N1 r = N2 r \<and> N1 r * N2 r \<le> 2 ^ 31) \<or> (N1 r = 1 \<and> in_int (N2 r))"
    by (simp_all add: n in_int_def)
  have two: "[0..<nat (N1 r * N2 r)] = [0, 1]" unfolding n by code_simp
  let ?w = "\<lparr>phi_x = [(7, 7), (7, 7)], phi_k = [(1, 2), (3, 4)], noise_pos = 0,
             noise = (\<lambda>n. real n + 1)\<rparr>"
  have len: "length (phi_x ?w) = nat (N1 r * N2 r)" "length (phi_k ?w) = nat (N1 r * N2 r)"
    by (simp_all add: n)
  have "real_space_white_noise r ?w
     = Some \<lparr>phi_x = [(1, 0), (2, 0)], phi_k = [(1, 2), (3, 4)], noise_pos = 2,
             noise = (\<lambda>n. real n + 1)\<rparr>"
    unfolding passes_in_order(1) [OF pos shape len(1)] two by (simp add: n)
  moreover have "apply_k_spcae_propagation r ?w
     = Some \<lparr>phi_x = [(7, 7), (7, 7)],
             phi_k = [(1 * ker r (0, 0), 2 * ker r (0, 0)), (3 * ker r (0, 1), 4 * ker r (0, 1))],
             noise_pos = 0, noise = (\<lambda>n. real n + 1)\<rparr>"
    unfolding passes_in_order(2) [OF pos shape len(2)] two by (simp add: n)
  ultimately show ?thesis using r n by (intro exI [of _ r]) simp
qed

text \<open>
  C10, amended. Both \<^verbatim>\<open>real_space_white_noise\<close> and \<^verbatim>\<open>apply_k_spcae_propagation\<close> write the
  workspace at \<^verbatim>\<open>i*N1+j\<close>, computed on \<^verbatim>\<open>int\<close>, for \<open>i < N1\<close> and \<open>j < N2\<close>. Take a grid with
  positive \<open>N1\<close> and \<open>N2\<close> and arrays of \<open>N1 * N2\<close> cells.

  \<^item> If \<open>N1 = N2\<close> and the array has at most \<open>2 ^ 31\<close> cells, or if \<open>N1 = 1\<close>, both passes run
    to their end with every access in bounds and every cell written exactly once: after
    the fill, cell \<open>c\<close> holds the draw number \<open>c\<close> of the pass, and the pass has made
    \<open>N1 * N2\<close> draws; after the filter, cell \<open>c\<close> is its old value times the factor of the
    grid cell \<open>(c div N2, c mod N2)\<close>.
  \<^item> If \<open>N1 > N2\<close>, or if \<open>N1 = N2\<close> and the array has more than \<open>2 ^ 31\<close> cells, neither pass
    runs to its end: the index of an iteration overflows or lies outside the array.
  \<^item> If \<open>1 < N1 < N2\<close>, neither pass ever writes the last cell of its array; when the array
    has at most \<open>2 ^ 31\<close> cells both passes run to their end all the same.
\<close>

theorem passes_write_once:
  assumes "0 < N1 r" "0 < N2 r" "in_int (N1 r)" "in_int (N2 r)"
    and "length (phi_x w) = nat (N1 r * N2 r)" "length (phi_k w) = nat (N1 r * N2 r)"
  shows "((N1 r = N2 r \<and> N1 r * N2 r \<le> 2 ^ 31) \<or> N1 r = 1 \<longrightarrow>
            real_space_white_noise r w =
              Some (w\<lparr>phi_x := map (\<lambda>c. (noise w (noise_pos w + c), 0)) [0..<nat (N1 r * N2 r)],
                      noise_pos := noise_pos w + nat (N1 r * N2 r)\<rparr>) \<and>
            apply_k_spcae_propagation r w =
              Some (w\<lparr>phi_k := map (\<lambda>c. (fst (phi_k w ! c) * ker r (c div nat (N2 r), c mod nat (N2 r)),
                                           snd (phi_k w ! c) * ker r (c div nat (N2 r), c mod nat (N2 r))))
                                  [0..<nat (N1 r * N2 r)]\<rparr>)) \<and>
         (N2 r < N1 r \<or> (N1 r = N2 r \<and> 2 ^ 31 < N1 r * N2 r) \<longrightarrow>
            real_space_white_noise r w = None \<and> apply_k_spcae_propagation r w = None) \<and>
         (1 < N1 r \<and> N1 r < N2 r \<longrightarrow>
            (\<forall>w'. real_space_white_noise r w = Some w' \<longrightarrow>
               phi_x w' ! (nat (N1 r * N2 r) - 1) = phi_x w ! (nat (N1 r * N2 r) - 1)) \<and>
            (\<forall>w'. apply_k_spcae_propagation r w = Some w' \<longrightarrow>
               phi_k w' ! (nat (N1 r * N2 r) - 1) = phi_k w ! (nat (N1 r * N2 r) - 1)) \<and>
            (N1 r * N2 r \<le> 2 ^ 31 \<longrightarrow>
               real_space_white_noise r w \<noteq> None \<and> apply_k_spcae_propagation r w \<noteq> None))"
proof (intro conjI impI allI)
  assume a: "(N1 r = N2 r \<and> N1 r * N2 r \<le> 2 ^ 31) \<or> N1 r = 1"
  then have shape: "(N1 r = N2 r \<and> N1 r * N2 r \<le> 2 ^ 31) \<or> (N1 r = 1 \<and> in_int (N2 r))"
    using assms(4) by blast
  show "real_space_white_noise r w =
      Some (w\<lparr>phi_x := map (\<lambda>c. (noise w (noise_pos w + c), 0)) [0..<nat (N1 r * N2 r)],
              noise_pos := noise_pos w + nat (N1 r * N2 r)\<rparr>)"
    by (rule passes_in_order(1) [OF assms(1,2) shape assms(5)])
  show "apply_k_spcae_propagation r w =
      Some (w\<lparr>phi_k := map (\<lambda>c. (fst (phi_k w ! c) * ker r (c div nat (N2 r), c mod nat (N2 r)),
                                   snd (phi_k w ! c) * ker r (c div nat (N2 r), c mod nat (N2 r))))
                          [0..<nat (N1 r * N2 r)]\<rparr>)"
    by (rule passes_in_order(2) [OF assms(1,2) shape assms(6)])
next
  assume a: "N2 r < N1 r \<or> (N1 r = N2 r \<and> 2 ^ 31 < N1 r * N2 r)"
  show "real_space_white_noise r w = None"
    by (rule passes_stop(1) [OF assms(1,2) a assms(5)])
  show "apply_k_spcae_propagation r w = None"
    by (rule passes_stop(2) [OF assms(1,2) a assms(6)])
next
  fix w'
  assume a: "1 < N1 r \<and> N1 r < N2 r"
  then have b: "1 < N1 r" "N1 r < N2 r" by blast+
  show "phi_x w' ! (nat (N1 r * N2 r) - 1) = phi_x w ! (nat (N1 r * N2 r) - 1)"
    if "real_space_white_noise r w = Some w'"
    by (rule passes_skip(1) [OF b that])
  show "phi_k w' ! (nat (N1 r * N2 r) - 1) = phi_k w ! (nat (N1 r * N2 r) - 1)"
    if "apply_k_spcae_propagation r w = Some w'"
    by (rule passes_skip(2) [OF b that])
next
  assume a: "1 < N1 r \<and> N1 r < N2 r" and c: "N1 r * N2 r \<le> 2 ^ 31"
  have le: "N1 r \<le> N2 r" using a by simp
  show "real_space_white_noise r w \<noteq> None"
    using passes_run_wide(1) [OF assms(1) le c assms(5)] by auto
  show "apply_k_spcae_propagation r w \<noteq> None"
    using passes_run_wide(2) [OF assms(1) le c assms(6)] by auto
qed

theorem passes_write_once_witness:
  "map_option phi_x
     (real_space_white_noise (projr (rft2d_ctor (\<lambda>k x. 1 - exp (- x)) (\<lambda>k. True) 2 2 2 2 1 1 0 1))
        \<lparr>phi_x = [(7, 7), (7, 7), (7, 7), (7, 7)], phi_k = [(1, 1), (1, 1), (1, 1), (1, 1)],
         noise_pos = 0, noise = (\<lambda>n. real n + 1)\<rparr>)
     = Some [(1, 0), (2, 0), (3, 0), (4, 0)] \<and>
   real_space_white_noise (projr (rft2d_ctor (\<lambda>k x. 1 - exp (- x)) (\<lambda>k. True) 3 2 3 2 1 1 0 1))
        \<lparr>phi_x = [(7, 7), (7, 7), (7, 7), (7, 7), (7, 7), (7, 7)],
         phi_k = [(1, 1), (1, 1), (1, 1), (1, 1), (1, 1), (1, 1)],
         noise_pos = 0, noise = (\<lambda>n. real n + 1)\<rparr>
     = None \<and>
   map_option (\<lambda>w. phi_x w ! 5)
     (real_space_white_noise (projr (rft2d_ctor (\<lambda>k x. 1 - exp (- x)) (\<lambda>k. True) 2 3 2 3 1 1 0 1))
        \<lparr>phi_x = [(7, 7), (7, 7), (7, 7), (7, 7), (7, 7), (7, 7)],
         phi_k = [(1, 1), (1, 1), (1, 1), (1, 1), (1, 1), (1, 1)],
         noise_pos = 0, noise = (\<lambda>n. real n + 1)\<rparr>)
     = Some (7, 7)"
proof -
  let ?w4 = "\<lparr>phi_x = [(7, 7), (7, 7), (7, 7), (7, 7)], phi_k = [(1, 1), (1, 1), (1, 1), (1, 1)],
         noise_pos = 0, noise = (\<lambda>n. real n + 1)\<rparr>"
  let ?w6 = "\<lparr>phi_x = [(7, 7), (7, 7), (7, 7), (7, 7), (7, 7), (7, 7)],
         phi_k = [(1, 1), (1, 1), (1, 1), (1, 1), (1, 1), (1, 1)],
         noise_pos = 0, noise = (\<lambda>n. real n + 1)\<rparr>"
  have "c_int (3 * 1 * real_of_int 2 / 2) = Some 3"
    by (simp add: c_int_def in_int_def)
  then have
    "\<exists>r. rft2d_ctor (\<lambda>k x. 1 - exp (- x)) (\<lambda>k. True) 2 2 2 2 1 1 0 1 = Inr r \<and> Ncut r = 3"
    "\<exists>r. rft2d_ctor (\<lambda>k x. 1 - exp (- x)) (\<lambda>k. True) 2 3 2 3 1 1 0 1 = Inr r \<and> Ncut r = 3"
    by (rule rft2d_ctor_builds; simp)+
  then obtain a c where a: "rft2d_ctor (\<lambda>k x. 1 - exp (- x)) (\<lambda>k. True) 2 2 2 2 1 1 0 1 = Inr a"
    and c: "rft2d_ctor (\<lambda>k x. 1 - exp (- x)) (\<lambda>k. True) 2 3 2 3 1 1 0 1 = Inr c"
    by blast
  have "c_int (3 * 1 * real_of_int 3 / 3) = Some 3"
    by (simp add: c_int_def in_int_def)
  then have
    "\<exists>r. rft2d_ctor (\<lambda>k x. 1 - exp (- x)) (\<lambda>k. True) 3 2 3 2 1 1 0 1 = Inr r \<and> Ncut r = 3"
    by (rule rft2d_ctor_builds) simp_all
  then obtain b where b: "rft2d_ctor (\<lambda>k x. 1 - exp (- x)) (\<lambda>k. True) 3 2 3 2 1 1 0 1 = Inr b"
    by blast
  have na: "N1 a = 2" "N2 a = 2" using rft2d_ctor_fields(1,2) [OF a] by simp_all
  have nb: "N1 b = 3" "N2 b = 2" using rft2d_ctor_fields(1,2) [OF b] by simp_all
  have nc: "N1 c = 2" "N2 c = 3" using rft2d_ctor_fields(1,2) [OF c] by simp_all
  have ha: "0 < N1 a" "0 < N2 a" "in_int (N1 a)" "in_int (N2 a)"
    "length (phi_x ?w4) = nat (N1 a * N2 a)" "length (phi_k ?w4) = nat (N1 a * N2 a)"
    by (simp_all add: na in_int_def)
  have hb: "0 < N1 b" "0 < N2 b" "in_int (N1 b)" "in_int (N2 b)"
    "length (phi_x ?w6) = nat (N1 b * N2 b)" "length (phi_k ?w6) = nat (N1 b * N2 b)"
    by (simp_all add: nb in_int_def)
  have hc: "0 < N1 c" "0 < N2 c" "in_int (N1 c)" "in_int (N2 c)"
    "length (phi_x ?w6) = nat (N1 c * N2 c)" "length (phi_k ?w6) = nat (N1 c * N2 c)"
    by (simp_all add: nc in_int_def)
  have four: "[0..<nat (N1 a * N2 a)] = [0, 1, 2, 3]" unfolding na by code_simp
  have "(N1 a = N2 a \<and> N1 a * N2 a \<le> 2 ^ 31) \<or> N1 a = 1" by (simp add: na)
  with passes_write_once [OF ha, THEN conjunct1]
  have "real_space_white_noise a ?w4 =
      Some (?w4\<lparr>phi_x := map (\<lambda>c. (noise ?w4 (noise_pos ?w4 + c), 0)) [0..<nat (N1 a * N2 a)],
                noise_pos := noise_pos ?w4 + nat (N1 a * N2 a)\<rparr>)"
    by blast
  then have 1: "map_option phi_x (real_space_white_noise a ?w4) = Some [(1, 0), (2, 0), (3, 0), (4, 0)]"
    unfolding four by simp
  have "N2 b < N1 b \<or> (N1 b = N2 b \<and> 2 ^ 31 < N1 b * N2 b)" by (simp add: nb)
  with passes_write_once [OF hb, THEN conjunct2, THEN conjunct1]
  have 2: "real_space_white_noise b ?w6 = None" by blast
  have wide: "1 < N1 c \<and> N1 c < N2 c" "N1 c * N2 c \<le> 2 ^ 31" by (simp_all add: nc)
  note t = passes_write_once [OF hc, THEN conjunct2, THEN conjunct2, rule_format, OF wide(1)]
  from t wide(2) obtain w' where w': "real_space_white_noise c ?w6 = Some w'" by blast
  with t have "phi_x w' ! (nat (N1 c * N2 c) - 1) = phi_x ?w6 ! (nat (N1 c * N2 c) - 1)" by blast
  then have 3: "map_option (\<lambda>w. phi_x w ! 5) (real_space_white_noise c ?w6) = Some (7, 7)"
    unfolding w' by (simp add: nc)
  from 1 2 3 show ?thesis unfolding a b c sum.sel by blast
qed

section \<open>The pipeline on a square grid\<close>

text \<open>On a grid with \<open>N1 = N2 = n\<close> of at most \<open>2 ^ 31\<close> cells the index \<^verbatim>\<open>i*N1+j\<close> is the
  row-major position of \<open>(i, j)\<close>: the fill takes one normal deviate per cell, and the filter
  multiplies both channels of cell \<open>(i, j)\<close> by \<^verbatim>\<open>ker\<close> of \<open>(i, j)\<close>. \<^verbatim>\<open>run\<close> is then the fill,
  the forward transform, the filter and the inverse transform, in this order.\<close>

lemma white_noise_square:
  assumes "N1 r = n" "N2 r = n" "0 < n" "n * n \<le> 2 ^ 31" "length (phi_x w) = nat (n * n)"
  shows "real_space_white_noise r w =
     Some (w\<lparr>phi_x := map (\<lambda>c. (noise w (noise_pos w + c), 0)) [0..<nat (n * n)],
             noise_pos := noise_pos w + nat (n * n)\<rparr>)"
  using passes_in_order(1) [of r w] assms by simp

lemma propagation_square:
  assumes "N1 r = n" "N2 r = n" "0 < n" "n * n \<le> 2 ^ 31" "length (phi_k w) = nat (n * n)"
  shows "apply_k_spcae_propagation r w =
     Some (w\<lparr>phi_k := map (\<lambda>c. (fst (phi_k w ! c) * ker r (c div nat n, c mod nat n),
                                  snd (phi_k w ! c) * ker r (c div nat n, c mod nat n)))
                         [0..<nat (n * n)]\<rparr>)"
  using passes_in_order(2) [of r w] assms by simp

lemma run_square:
  assumes "N1 r = n" "N2 r = n" "0 < n" "n * n \<le> 2 ^ 31" "length (phi_x w) = nat (n * n)"
    and "\<forall>xs. length (x2k xs) = length xs"
  shows "run x2k k2x r w =
     (let white = map (\<lambda>c. (noise w (noise_pos w + c), 0)) [0..<nat (n * n)];
          spectrum = x2k white;
          filtered = map (\<lambda>c. (fst (spectrum ! c) * ker r (c div nat n, c mod nat n),
                                 snd (spectrum ! c) * ker r (c div nat n, c mod nat n)))
                         [0..<nat (n * n)]
      in Some (w\<lparr>phi_x := k2x filtered, phi_k := filtered,
                  noise_pos := noise_pos w + nat (n * n)\<rparr>))"
proof -
  let ?white = "map (\<lambda>c. (noise w (noise_pos w + c), 0::real)) [0..<nat (n * n)]"
  let ?w1 = "w\<lparr>phi_x := ?white, noise_pos := noise_pos w + nat (n * n)\<rparr>"
  have 1: "real_space_white_noise r w = Some ?w1"
    by (rule white_noise_square [OF assms(1-5)])
  have len: "length (phi_k (?w1\<lparr>phi_k := x2k (phi_x ?w1)\<rparr>)) = nat (n * n)"
    using assms(6) by simp
  show ?thesis
    unfolding run_def 1 option.case propagation_square [OF assms(1-4) len]
    by (simp add: Let_def)
qed

section \<open>The frequency filter on a grid that is not square\<close>

lemma grid_loop_2x3: "grid_loop 2 3 = [(0,0), (0,1), (0,2), (1,0), (1,1), (1,2)]"
  by code_simp

text \<open>
  C7 asks that every frequency cell \<open>(i, j)\<close> be multiplied by its own factor \<^verbatim>\<open>ker\<close>. On a
  grid with \<open>N1 = 2\<close> and \<open>N2 = 3\<close> the code does something else, because it addresses cell
  \<open>(i, j)\<close> at \<^verbatim>\<open>i*N1+j\<close> while the array has rows of length \<open>N2\<close>: the array cell 2 is
  multiplied twice (by the factors of \<open>(0, 2)\<close> and of \<open>(1, 0)\<close>), the cells 3 and 4 get the
  factors of \<open>(1, 1)\<close> and \<open>(1, 2)\<close> instead of those of \<open>(1, 0)\<close> and \<open>(1, 1)\<close>, and the last
  cell, which holds \<open>(1, 2)\<close>, is not multiplied at all.
\<close>

theorem propagation_2x3:
  assumes "N1 r = 2" "N2 r = 3"
    and "phi_k w = [(a0, b0), (a1, b1), (a2, b2), (a3, b3), (a4, b4), (a5, b5)]"
  shows "apply_k_spcae_propagation r w = Some (w\<lparr>phi_k :=
           [(a0 * ker r (0,0), b0 * ker r (0,0)),
            (a1 * ker r (0,1), b1 * ker r (0,1)),
            (a2 * ker r (0,2) * ker r (1,0), b2 * ker r (0,2) * ker r (1,0)),
            (a3 * ker r (1,1), b3 * ker r (1,1)),
            (a4 * ker r (1,2), b4 * ker r (1,2)),
            (a5, b5)]\<rparr>)"
proof -
  have idx: "cell_index 2 (0, 0) = Some 0" "cell_index 2 (0, Suc 0) = Some 1"
    "cell_index 2 (0, 2) = Some 2" "cell_index 2 (Suc 0, 0) = Some 2"
    "cell_index 2 (Suc 0, Suc 0) = Some 3" "cell_index 2 (Suc 0, 2) = Some 4"
    by (simp_all add: cell_index_def in_int_def)
  have "for_cells (propagation_cell r) [(0,0), (0,1), (0,2), (1,0), (1,1), (1,2)] w
      = Some (w\<lparr>phi_k :=
           [(a0 * ker r (0,0), b0 * ker r (0,0)),
            (a1 * ker r (0,1), b1 * ker r (0,1)),
            (a2 * ker r (0,2) * ker r (1,0), b2 * ker r (0,2) * ker r (1,0)),
            (a3 * ker r (1,1), b3 * ker r (1,1)),
            (a4 * ker r (1,2), b4 * ker r (1,2)),
            (a5, b5)]\<rparr>)"
    by (simp add: propagation_cell_def assms idx)
  then show ?thesis
    by (simp add: apply_k_spcae_propagation_def assms(1,2) grid_loop_2x3)
qed

theorem propagation_2x3_witness:
  "map_option (\<lambda>w. phi_k w ! 5)
     (apply_k_spcae_propagation
        (projr (rft2d_ctor (\<lambda>k x. 1 - exp (- x)) (\<lambda>k. True) 2 3 2 3 1 1 0 1))
        \<lparr>phi_x = [(0,0), (0,0), (0,0), (0,0), (0,0), (0,0)],
         phi_k = [(1,1), (1,1), (1,1), (1,1), (1,1), (1,1)],
         noise_pos = 0, noise = (\<lambda>n. 0)\<rparr>)
   = Some (1, 1)"
proof -
  have "c_int (3 * 1 * real_of_int 2 / 2) = Some 3"
    by (simp add: c_int_def in_int_def)
  then have "\<exists>r. rft2d_ctor (\<lambda>k x. 1 - exp (- x)) (\<lambda>k. True) 2 3 2 3 1 1 0 1 = Inr r \<and> Ncut r = 3"
    by (rule rft2d_ctor_builds) simp_all
  then obtain r where r: "rft2d_ctor (\<lambda>k x. 1 - exp (- x)) (\<lambda>k. True) 2 3 2 3 1 1 0 1 = Inr r"
    by blast
  have n: "N1 r = 2" "N2 r = 3"
    using rft2d_ctor_fields(1,2) [OF r] by simp_all
  show ?thesis
    unfolding r sum.sel
    by (simp add: propagation_2x3 [OF n])
qed

section \<open>What the constructor rejects\<close>

text \<open>
  C8, as stated, fails: the constructor checks none of its arguments. A negative and a zero
  correlation length, the second together with a negative width, are accepted and an object
  is returned, every allocation being served.
\<close>

theorem rft2d_ctor_accepts_counterexample:
  "\<not> isl (rft2d_ctor (\<lambda>k x. 1 - exp (- x)) (\<lambda>k. True) 2000 2000 20 20 1 (- 1) 0 (1/20)) \<and>
   \<not> isl (rft2d_ctor (\<lambda>k x. 1 - exp (- x)) (\<lambda>k. True) 2000 2000 20 20 1 0 0 (- 1/1000))"
proof -
  have "c_int (3 * (1/20) * real_of_int 2000 / 20) = Some 15"
    by (simp add: c_int_def in_int_def)
  then have "\<exists>r. rft2d_ctor (\<lambda>k x. 1 - exp (- x)) (\<lambda>k. True) 2000 2000 20 20 1 (- 1) 0 (1/20) = Inr r
      \<and> Ncut r = 15"
    by (rule rft2d_ctor_builds) simp_all
  then obtain r1 where
    r1: "rft2d_ctor (\<lambda>k x. 1 - exp (- x)) (\<lambda>k. True) 2000 2000 20 20 1 (- 1) 0 (1/20) = Inr r1"
    by blast
  have "c_int (3 * (- 1/1000) * real_of_int 2000 / 20) = Some 0"
    by (simp add: c_int_def in_int_def)
  then have "\<exists>r. rft2d_ctor (\<lambda>k x. 1 - exp (- x)) (\<lambda>k. True) 2000 2000 20 20 1 0 0 (- 1/1000) = Inr r
      \<and> Ncut r = 0"
    by (rule rft2d_ctor_builds) simp_all
  then obtain r2 where
    r2: "rft2d_ctor (\<lambda>k x. 1 - exp (- x)) (\<lambda>k. True) 2000 2000 20 20 1 0 0 (- 1/1000) = Inr r2"
    by blast
  show ?thesis unfolding r1 r2 by simp
qed

lemma c_int_neg_iff:
  assumes "c_int d = Some c"
  shows "c < 0 \<longleftrightarrow> d \<le> - 1"
proof (cases "0 \<le> d")
  case True
  then have "c = \<lfloor>d\<rfloor>" using assms by (simp add: c_int_def Let_def split: if_splits)
  then show ?thesis using True by simp
next
  case False
  then have c: "c = \<lceil>d\<rceil>" using assms by (simp add: c_int_def Let_def split: if_splits)
  have "\<lceil>d\<rceil> < 0 \<longleftrightarrow> \<lceil>d\<rceil> \<le> - 1" by linarith
  also have "\<dots> \<longleftrightarrow> d \<le> - 1" by (simp add: ceiling_le_iff)
  finally show ?thesis unfolding c .
qed

text \<open>
  C8, amended. Take a positive fluctuation shape, \<open>L1 \<noteq> 0\<close>, a value \<open>3 * width * N1 / L1\<close>
  whose truncation \<^verbatim>\<open>Ncut\<close> is an \<^verbatim>\<open>int\<close> below 32768 with \<open>2 * Ncut + 1\<close> an \<^verbatim>\<open>int\<close> as well
  (so that no integer operation of the constructor overflows), and a run in which every
  \<^verbatim>\<open>new\<close>-expression gets its memory. Then the construction of the field generator fails
  exactly when \<open>3 * width * N1 / L1 \<le> -1\<close>, that is when the side \<open>2 * Ncut + 1\<close> of the
  kernel table is negative, and it fails by the allocation of that table. For every other
  grid size, width and correlation length, positive or not, it returns an object.
\<close>

theorem rft2d_ctor_fails_iff:
  assumes "0 < v" "l1 \<noteq> 0"
    and "c_int (3 * w * real_of_int n1 / l1) = Some c" "in_int (c * 2 + 1)" "c < 32768"
    and "\<forall>k. ok k"
  shows "(isl (rft2d_ctor P ok n1 n2 l1 l2 v l sd w) \<longleftrightarrow> 3 * w * real_of_int n1 / l1 \<le> - 1) \<and>
         (isl (rft2d_ctor P ok n1 n2 l1 l2 v l sd w) \<longrightarrow>
            rft2d_ctor P ok n1 n2 l1 l2 v l sd w = Inl bad_array_new_length)"
proof -
  have "c * 2 + 1 < 0 \<longleftrightarrow> c < 0" by linarith
  then have s: "c * 2 + 1 < 0 \<longleftrightarrow> 3 * w * real_of_int n1 / l1 \<le> - 1"
    by (simp only: c_int_neg_iff [OF assms(3)])
  have ok: "ok 0" "ok 1" using assms(6) by blast+
  show ?thesis
  proof (cases "c * 2 + 1 < 0")
    case True
    have "rft2d_ctor P ok n1 n2 l1 l2 v l sd w = Inl bad_array_new_length"
      by (rule rft2d_ctor_Inl [OF ok assms(2,3,4) True])
    then show ?thesis using s True by simp
  next
    case False
    then have "0 \<le> c" by linarith
    from rft2d_ctor_Inr [OF assms(6,2,3) this assms(5)]
    obtain r where "rft2d_ctor P ok n1 n2 l1 l2 v l sd w = Inr r" by blast
    then show ?thesis using s False by simp
  qed
qed

theorem rft2d_ctor_fails_iff_witness:
  "rft2d_ctor (\<lambda>k x. 1 - exp (- x)) (\<lambda>k. True) 2000 2000 20 20 1 1 0 (- 1/20)
     = Inl bad_array_new_length \<and>
   \<not> isl (rft2d_ctor (\<lambda>k x. 1 - exp (- x)) (\<lambda>k. True) (- 5) (- 5) 20 20 1 1 0 (1/20))"
proof -
  have a: "c_int (3 * (- 1/20) * real_of_int 2000 / 20) = Some (- 15)"
    by (simp add: c_int_def in_int_def)
  have b: "c_int (3 * (1/20) * real_of_int (- 5) / 20) = Some 0"
    by (simp add: c_int_def in_int_def)
  have r: "in_int (- 15 * 2 + 1)" "in_int (0 * 2 + 1)" by (simp_all add: in_int_def)
  have v: "(0::real) < 1" "(20::real) \<noteq> 0" "(- 15::int) < 32768" "(0::int) < 32768"
    "\<forall>k::nat. (\<lambda>k. True) k"
    by simp_all
  note t1 = rft2d_ctor_fails_iff [OF v(1,2) a r(1) v(3,5),
      of "\<lambda>k x. 1 - exp (- x)" 2000 20 1 0]
  note t2 = rft2d_ctor_fails_iff [OF v(1,2) b r(2) v(4,5),
      of "\<lambda>k x. 1 - exp (- x)" "- 5" 20 1 0]
  have "3 * (- 1/20) * real_of_int 2000 / 20 \<le> (- 1::real)" by simp
  with t1 have 1: "rft2d_ctor (\<lambda>k x. 1 - exp (- x)) (\<lambda>k. True) 2000 2000 20 20 1 1 0 (- 1/20)
     = Inl bad_array_new_length" by blast
  have "\<not> 3 * (1/20) * real_of_int (- 5) / 20 \<le> (- 1::real)" by simp
  with t2 have 2:
    "\<not> isl (rft2d_ctor (\<lambda>k x. 1 - exp (- x)) (\<lambda>k. True) (- 5) (- 5) 20 20 1 1 0 (1/20))"
    by blast
  from 1 2 show ?thesis by blast
qed

section \<open>The kernel table\<close>

subsection \<open>The sum of the table\<close>







subsection \<open>Numerical bounds\<close>








subsection \<open>The table against the value 1\<close>




end
